theory Spec2Isabelle
  imports Complex_Main "HOL-Library.Multiset"
begin

section \<open>Data model (src/types: TileData, Grid; gameLogic.ts: MoveResult)\<close>

text \<open>
  A tile is the TypeScript interface \<^verbatim>\<open>TileData\<close>. Its fields \<^verbatim>\<open>id\<close>, \<^verbatim>\<open>value\<close>, \<^verbatim>\<open>row\<close>
  and \<^verbatim>\<open>col\<close> are JavaScript numbers. The tiles that the program creates hold integers
  in all four, and \<^verbatim>\<open>id\<close> and \<^verbatim>\<open>value\<close> are integers here; arithmetic on them is exact
  in JavaScript as long as the numbers stay below \<open>2^53\<close>. The type \<open>'n\<close> of the
  coordinates is a parameter: it is \<open>int\<close> for the tiles of the game, and \<open>real\<close> where
  a function is applied to tiles whose coordinates are arbitrary (finite) numbers. The
  optional fields are \<open>None\<close> when absent. The content of \<^verbatim>\<open>mergedFrom\<close> is never
  inspected by the game logic, so its type is a parameter as well. The field names
  \<^verbatim>\<open>id\<close> and \<^verbatim>\<open>value\<close> are written \<open>tile_id\<close> and \<open>tile_value\<close>.
\<close>

record ('n, 'm) TileData =
  tile_id :: int
  tile_value :: int
  row :: 'n
  col :: 'n
  isNew :: "bool option"
  isMerged :: "bool option"
  merged :: "bool option"
  mergedFrom :: "'m option"

type_synonym Grid = "int list list"

record 'm MoveResult =
  updatedTiles :: "(int, 'm) TileData list"
  scoreIncrease :: int
  moved :: bool

text \<open>
  \<open>TypeError\<close> is the JavaScript exception raised when a property of \<^verbatim>\<open>undefined\<close> is
  read or written. \<open>OutOfBoundsWrite\<close> flags an assignment \<^verbatim>\<open>grid[r][c] = v\<close> whose
  column \<open>c\<close> is not an index of the row: JavaScript does not raise, it adds a property
  outside the matrix, which a \<open>Grid\<close> cannot hold; the model stops there with this flag.
\<close>

datatype error = TypeError | OutOfBoundsWrite

definition GRID_SIZE :: nat where
  "GRID_SIZE = 4"

section \<open>Dense grid (createEmptyGrid, tilesToGrid)\<close>

definition createEmptyGrid :: "nat \<Rightarrow> Grid" where
  "createEmptyGrid sz = replicate sz (replicate sz 0)"

text \<open>
  Indexing an array of length \<open>n\<close> with a number \<open>x\<close>: the expression \<^verbatim>\<open>a[x]\<close> denotes the
  element \<open>k\<close> exactly when \<open>x\<close> is the integer \<open>k\<close> and \<open>k < n\<close>. For every other
  number (negative, too large or fractional) the array has no such element.
\<close>

definition elementIndex :: "nat \<Rightarrow> 'n::linordered_semidom \<Rightarrow> nat option" where
  "elementIndex n x = find (\<lambda>k. of_nat k = x) [0..<n]"

text \<open>
  The assignment \<^verbatim>\<open>grid[r][c] = v\<close> on a matrix, without any guard. When \<^verbatim>\<open>grid[r]\<close> is
  no element of the matrix it is \<^verbatim>\<open>undefined\<close>, and the assignment raises.
\<close>

definition writeCell :: "Grid \<Rightarrow> 'n::linordered_semidom \<Rightarrow> 'n \<Rightarrow> int \<Rightarrow> error + Grid" where
  "writeCell grid r c v =
     (case elementIndex (length grid) r of
        None \<Rightarrow> Inl TypeError
      | Some i \<Rightarrow>
          (case elementIndex (length (grid ! i)) c of
             None \<Rightarrow> Inl OutOfBoundsWrite
           | Some j \<Rightarrow> Inr (grid[i := (grid ! i)[j := v]])))"

text \<open>The body of the \<^verbatim>\<open>forEach\<close> callback of \<^verbatim>\<open>tilesToGrid\<close>.\<close>

definition placeTile :: "nat \<Rightarrow> ('n::linordered_semidom, 'm) TileData \<Rightarrow> Grid \<Rightarrow> error + Grid" where
  "placeTile sz tile grid =
     (if row tile \<ge> 0 \<and> row tile < of_nat sz \<and> col tile \<ge> 0 \<and> col tile < of_nat sz
      then writeCell grid (row tile) (col tile) (tile_value tile)
      else Inr grid)"

fun forEachTile :: "nat \<Rightarrow> ('n::linordered_semidom, 'm) TileData list \<Rightarrow> Grid \<Rightarrow> error + Grid" where
  "forEachTile sz [] grid = Inr grid"
| "forEachTile sz (tile # tiles) grid =
     (case placeTile sz tile grid of
        Inl e \<Rightarrow> Inl e
      | Inr grid' \<Rightarrow> forEachTile sz tiles grid')"

definition tilesToGrid :: "('n::linordered_semidom, 'm) TileData list \<Rightarrow> nat \<Rightarrow> error + Grid" where
  "tilesToGrid tiles sz = forEachTile sz tiles (createEmptyGrid sz)"

section \<open>Spawner (addRandomTile) and initializeGame\<close>

text \<open>
  The two loops that collect the empty cells: the top row first, the rows below only
  when the top row has no empty cell.
\<close>

definition topRowEmpty :: "Grid \<Rightarrow> (int \<times> int) list" where
  "topRowEmpty grid =
     map (\<lambda>c. (0, int c)) (filter (\<lambda>c. grid ! 0 ! c = 0) [0..<GRID_SIZE])"

definition restEmpty :: "Grid \<Rightarrow> (int \<times> int) list" where
  "restEmpty grid =
     concat (map (\<lambda>r. map (\<lambda>c. (int r, int c)) (filter (\<lambda>c. grid ! r ! c = 0) [0..<GRID_SIZE]))
                 [1..<GRID_SIZE])"

definition emptyCells :: "Grid \<Rightarrow> (int \<times> int) list" where
  "emptyCells grid = (if topRowEmpty grid = [] then restEmpty grid else topRowEmpty grid)"

text \<open>
  \<^verbatim>\<open>addRandomTile\<close> reads and increments the module variable \<^verbatim>\<open>nextTileId\<close> and calls
  \<^verbatim>\<open>Math.random()\<close> twice. Here the counter is passed in and returned, and the two
  random numbers are the arguments \<open>u1\<close> (cell choice) and \<open>u2\<close> (value choice);
  \<^verbatim>\<open>Math.random()\<close> yields numbers \<open>u\<close> with \<open>0 \<le> u < 1\<close>. The result \<open>None\<close> is
  \<^verbatim>\<open>null\<close>. Destructuring \<^verbatim>\<open>emptyCells[randomIndex]\<close> raises when the index is not
  an index of the array.
\<close>

record 'm AddResult =
  tilesWithNew :: "(int, 'm) TileData list"
  newTile :: "(int, 'm) TileData"

definition addRandomTile ::
  "int \<Rightarrow> real \<Rightarrow> real \<Rightarrow> (int, 'm) TileData list \<Rightarrow> error + ('m AddResult option \<times> int)" where
  "addRandomTile nextTileId u1 u2 tiles =
     (case tilesToGrid tiles GRID_SIZE of
        Inl e \<Rightarrow> Inl e
      | Inr grid \<Rightarrow>
          (let cells = emptyCells grid in
           if length cells = 0 then Inr (None, nextTileId)
           else
             (let randomIndex = \<lfloor>u1 * real (length cells)\<rfloor> in
              if 0 \<le> randomIndex \<and> nat randomIndex < length cells then
                (let (r, c) = cells ! nat randomIndex;
                     v = (if u2 < 9 / 10 then 2 else 4);
                     t = \<lparr>tile_id = nextTileId, tile_value = v, row = r, col = c,
                          isNew = None, isMerged = None, merged = None, mergedFrom = None\<rparr>
                 in Inr (Some \<lparr>tilesWithNew = tiles @ [t], newTile = t\<rparr>, nextTileId + 1))
              else Inl TypeError)))"

text \<open>
  The object returned by \<^verbatim>\<open>initializeGame\<close>; its fields \<^verbatim>\<open>grid\<close> and \<^verbatim>\<open>tiles\<close> are written
  \<open>init_grid\<close> and \<open>init_tiles\<close>.
\<close>

record 'm InitResult =
  init_grid :: Grid
  init_tiles :: "(int, 'm) TileData list"

definition initializeGame ::
  "int \<Rightarrow> real \<Rightarrow> real \<Rightarrow> real \<Rightarrow> real \<Rightarrow> error + ('m InitResult \<times> int)" where
  "initializeGame nextTileId u1 u2 u3 u4 =
     (let grid0 = createEmptyGrid GRID_SIZE; tiles0 = [] in
      case addRandomTile nextTileId u1 u2 tiles0 of
        Inl e \<Rightarrow> Inl e
      | Inr (tile1Result, next1) \<Rightarrow>
          (let tiles1 = (case tile1Result of Some res \<Rightarrow> tilesWithNew res | None \<Rightarrow> tiles0) in
           case addRandomTile next1 u3 u4 tiles1 of
             Inl e \<Rightarrow> Inl e
           | Inr (tile2Result, next2) \<Rightarrow>
               (let tiles2 = (case tile2Result of Some res \<Rightarrow> tilesWithNew res | None \<Rightarrow> tiles1)
                in Inr (\<lparr>init_grid = grid0, init_tiles = tiles2\<rparr>, next2))))"

section \<open>Row operations on number arrays (slideRowLeft, mergeRowLeft, moveRowLeft)\<close>

text \<open>
  \<^verbatim>\<open>slideRowLeft\<close> writes the non-zero entries into a fresh array of four zeros; a write
  at an index past the end extends a JavaScript array, so more than four non-zero
  entries all survive.
\<close>

definition slideRowLeft :: "int list \<Rightarrow> int list" where
  "slideRowLeft r =
     (let filteredRow = filter (\<lambda>val. val \<noteq> 0) r
      in filteredRow @ replicate (GRID_SIZE - length filteredRow) 0)"

text \<open>
  One iteration of the loop of \<^verbatim>\<open>mergeRowLeft\<close>. The function is private and its only
  caller passes a row produced by \<^verbatim>\<open>slideRowLeft\<close>, which has at least four entries,
  so the indices \<open>i\<close> and \<open>i + 1\<close> for \<open>i < 3\<close> are indices of the row.
\<close>

definition mergeStep :: "nat \<Rightarrow> int list \<times> int \<Rightarrow> int list \<times> int" where
  "mergeStep i st =
     (let (mergedRow, score) = st in
      if mergedRow ! i \<noteq> 0 \<and> mergedRow ! i = mergedRow ! (i + 1)
      then (let m1 = mergedRow[i := mergedRow ! i * 2]
            in (m1[i + 1 := 0], score + m1 ! i))
      else (mergedRow, score))"

definition mergeRowLeft :: "int list \<Rightarrow> int list \<times> int" where
  "mergeRowLeft r = fold mergeStep [0..<GRID_SIZE - 1] (r, 0)"

definition moveRowLeft :: "int list \<Rightarrow> int list \<times> int" where
  "moveRowLeft r =
     (let slidedOnce = slideRowLeft r;
          (mergedRow, score) = mergeRowLeft slidedOnce;
          finalRow = slideRowLeft mergedRow
      in (finalRow, score))"

section \<open>Directional move engine (moveLeft, moveRight, moveUp, moveDown)\<close>

text \<open>
  The four move functions of the source are copies of one procedure that differ in
  five places, listed here per direction:
  \<^item> the coordinate compared with the loop variable in \<^verbatim>\<open>filter\<close> (\<open>lineOf\<close>):
    \<^verbatim>\<open>row\<close> for left and right, \<^verbatim>\<open>col\<close> for up and down;
  \<^item> the comparator of \<^verbatim>\<open>sort\<close> (\<open>sortKey\<close>): \<^verbatim>\<open>a.col - b.col\<close>, \<^verbatim>\<open>b.col - a.col\<close>,
    \<^verbatim>\<open>a.row - b.row\<close>, \<^verbatim>\<open>b.row - a.row\<close>; \<^verbatim>\<open>Array.prototype.sort\<close> is stable, and so
    is \<open>sort_key\<close>;
  \<^item> the coordinate read and assigned in the last loop (\<open>along\<close>, \<open>setAlong\<close>);
  \<^item> the value assigned there (\<open>targetPos\<close>): \<^verbatim>\<open>i\<close> for left and up,
    \<^verbatim>\<open>GRID_SIZE - 1 - i\<close> for right and down;
  \<^item> the test \<^verbatim>\<open>if (currentTile.value === 0) continue\<close>, present in moveUp and
    moveDown only (\<open>skipsZero\<close>).
\<close>

datatype Direction = Left | Right | Up | Down

fun lineOf :: "Direction \<Rightarrow> (int, 'm) TileData \<Rightarrow> int" where
  "lineOf Left t = row t"
| "lineOf Right t = row t"
| "lineOf Up t = col t"
| "lineOf Down t = col t"

fun along :: "Direction \<Rightarrow> (int, 'm) TileData \<Rightarrow> int" where
  "along Left t = col t"
| "along Right t = col t"
| "along Up t = row t"
| "along Down t = row t"

fun setAlong :: "Direction \<Rightarrow> int \<Rightarrow> (int, 'm) TileData \<Rightarrow> (int, 'm) TileData" where
  "setAlong Left v t = t\<lparr>col := v\<rparr>"
| "setAlong Right v t = t\<lparr>col := v\<rparr>"
| "setAlong Up v t = t\<lparr>row := v\<rparr>"
| "setAlong Down v t = t\<lparr>row := v\<rparr>"

fun sortKey :: "Direction \<Rightarrow> (int, 'm) TileData \<Rightarrow> int" where
  "sortKey Left t = col t"
| "sortKey Right t = - col t"
| "sortKey Up t = row t"
| "sortKey Down t = - row t"

fun targetPos :: "Direction \<Rightarrow> int \<Rightarrow> int" where
  "targetPos Left i = i"
| "targetPos Right i = int GRID_SIZE - 1 - i"
| "targetPos Up i = i"
| "targetPos Down i = int GRID_SIZE - 1 - i"

fun skipsZero :: "Direction \<Rightarrow> bool" where
  "skipsZero Left = False"
| "skipsZero Right = False"
| "skipsZero Up = True"
| "skipsZero Down = True"

text \<open>
  The working state of one move. \<^verbatim>\<open>tilesById\<close> is a JavaScript \<^verbatim>\<open>Map\<close> from ids to
  mutable copies of the tiles, and the arrays \<^verbatim>\<open>currentRowTiles\<close> and \<^verbatim>\<open>newRow\<close> hold
  references to the same copies. A copy is stored under its own id and no id is ever
  assigned, so the id serves as the address of the copy: \<open>objs\<close> is the store of the
  copies, \<open>mapKeys\<close> the keys of \<^verbatim>\<open>tilesById\<close> in insertion order. A copy that is
  deleted from the \<^verbatim>\<open>Map\<close> stays in the store, where the arrays still reach it.
  \<open>score\<close> and \<open>hasMoved\<close> are the local variables \<^verbatim>\<open>scoreIncrease\<close> and \<^verbatim>\<open>moved\<close>.
\<close>

record 'm Work =
  objs :: "int \<rightharpoonup> (int, 'm) TileData"
  mapKeys :: "int list"
  score :: int
  hasMoved :: bool

definition deref :: "'m Work \<Rightarrow> int \<Rightarrow> (int, 'm) TileData" where
  "deref w a = the (objs w a)"

text \<open>
  \<^verbatim>\<open>new Map(tiles.map(tile => [tile.id, { ...tile }]))\<close>: a later entry with a key
  already present replaces the value and keeps the key's place in the order.
\<close>

definition copyTiles :: "(int, 'm) TileData list \<Rightarrow> 'm Work" where
  "copyTiles tiles =
     \<lparr>objs = fold (\<lambda>t h. h(tile_id t \<mapsto> t)) tiles Map.empty,
      mapKeys = fold (\<lambda>t ks. if tile_id t \<in> set ks then ks else ks @ [tile_id t]) tiles [],
      score = 0, hasMoved = False\<rparr>"

text \<open>
  \<^verbatim>\<open>.map(tile => tilesById.get(tile.id)!)\<close>. When an id is no longer a key, the array
  receives \<^verbatim>\<open>undefined\<close>, and the loops that follow read a property of it (the walk
  reads \<^verbatim>\<open>value\<close>, or pushes it and the last loop reads the coordinate), which raises:
  the result \<open>None\<close> stands for an array with an \<^verbatim>\<open>undefined\<close> entry.
\<close>

definition getAll :: "'m Work \<Rightarrow> (int, 'm) TileData list \<Rightarrow> int list option" where
  "getAll w ts =
     (if \<forall>t \<in> set ts. tile_id t \<in> set (mapKeys w) then Some (map tile_id ts) else None)"

text \<open>The walk over the ordered tiles of one line (the loop that builds \<^verbatim>\<open>newRow\<close>).\<close>

fun walk :: "bool \<Rightarrow> int list \<Rightarrow> int list \<Rightarrow> int option \<Rightarrow> 'm Work \<Rightarrow> int list \<times> 'm Work" where
  "walk sz [] newRow lastMergedTileId w = (newRow, w)"
| "walk sz (c # cs) newRow lastMergedTileId w =
     (let currentTile = deref w c in
      if sz \<and> tile_value currentTile = 0 then walk sz cs newRow lastMergedTileId w
      else if newRow \<noteq> []
              \<and> tile_value (deref w (last newRow)) = tile_value currentTile
              \<and> Some (tile_id (deref w (last newRow))) \<noteq> lastMergedTileId
      then
        (let l = last newRow;
             mergedValue = tile_value currentTile * 2;
             lastTile = (deref w l)\<lparr>tile_value := mergedValue, merged := Some True\<rparr>
         in walk sz cs newRow (Some (tile_id lastTile))
              (w\<lparr>objs := (objs w)(l \<mapsto> lastTile),
                 mapKeys := removeAll (tile_id currentTile) (mapKeys w),
                 score := score w + mergedValue,
                 hasMoved := True\<rparr>))
      else walk sz cs (newRow @ [c]) lastMergedTileId w)"

text \<open>The loop that assigns the coordinate along the line to the tiles of \<^verbatim>\<open>newRow\<close>.\<close>

fun place :: "Direction \<Rightarrow> int \<Rightarrow> int list \<Rightarrow> 'm Work \<Rightarrow> 'm Work" where
  "place d i [] w = w"
| "place d i (a # as) w =
     (let tile = deref w a in
      place d (i + 1) as
        (if along d tile \<noteq> targetPos d i
         then w\<lparr>objs := (objs w)(a \<mapsto> setAlong d (targetPos d i) tile), hasMoved := True\<rparr>
         else w))"

text \<open>The body of the outer loop, for the line \<open>r\<close>.\<close>

definition processLine :: "Direction \<Rightarrow> (int, 'm) TileData list \<Rightarrow> 'm Work \<Rightarrow> nat \<Rightarrow> error + 'm Work" where
  "processLine d tiles w r =
     (case getAll w (sort_key (sortKey d) (filter (\<lambda>tile. lineOf d tile = int r) tiles)) of
        None \<Rightarrow> Inl TypeError
      | Some currentRowTiles \<Rightarrow>
          (let (newRow, w') = walk (skipsZero d) currentRowTiles [] None w
           in Inr (place d 0 newRow w')))"

fun forLines :: "Direction \<Rightarrow> (int, 'm) TileData list \<Rightarrow> nat list \<Rightarrow> 'm Work \<Rightarrow> error + 'm Work" where
  "forLines d tiles [] w = Inr w"
| "forLines d tiles (r # rs) w =
     (case processLine d tiles w r of
        Inl e \<Rightarrow> Inl e
      | Inr w' \<Rightarrow> forLines d tiles rs w')"

text \<open>
  The whole procedure for the direction \<open>d\<close>; \<^verbatim>\<open>moveLeft\<close>, \<^verbatim>\<open>moveRight\<close>, \<^verbatim>\<open>moveUp\<close> and
  \<^verbatim>\<open>moveDown\<close> are its four instances. \<^verbatim>\<open>Array.from(tilesById.values())\<close> lists the
  copies in the order of the keys.
\<close>

definition move :: "Direction \<Rightarrow> (int, 'm) TileData list \<Rightarrow> error + 'm MoveResult" where
  "move d tiles =
     (case forLines d tiles [0..<GRID_SIZE] (copyTiles tiles) of
        Inl e \<Rightarrow> Inl e
      | Inr w \<Rightarrow>
          Inr \<lparr>updatedTiles = map (deref w) (mapKeys w),
               scoreIncrease = score w, moved = hasMoved w\<rparr>)"

definition moveLeft :: "(int, 'm) TileData list \<Rightarrow> error + 'm MoveResult" where
  "moveLeft tiles = move Left tiles"

definition moveRight :: "(int, 'm) TileData list \<Rightarrow> error + 'm MoveResult" where
  "moveRight tiles = move Right tiles"

definition moveUp :: "(int, 'm) TileData list \<Rightarrow> error + 'm MoveResult" where
  "moveUp tiles = move Up tiles"

definition moveDown :: "(int, 'm) TileData list \<Rightarrow> error + 'm MoveResult" where
  "moveDown tiles = move Down tiles"

section \<open>Terminal-state detector (checkAvailableMoves)\<close>

definition checkAvailableMoves :: "(int, 'm) TileData list \<Rightarrow> error + bool" where
  "checkAvailableMoves tiles =
     (if length tiles < GRID_SIZE * GRID_SIZE then Inr True
      else case moveLeft tiles of Inl e \<Rightarrow> Inl e | Inr resL \<Rightarrow>
        if moved resL then Inr True
        else case moveRight tiles of Inl e \<Rightarrow> Inl e | Inr resR \<Rightarrow>
          if moved resR then Inr True
          else case moveUp tiles of Inl e \<Rightarrow> Inl e | Inr resU \<Rightarrow>
            if moved resU then Inr True
            else case moveDown tiles of Inl e \<Rightarrow> Inl e | Inr resD \<Rightarrow>
              if moved resD then Inr True
              else Inr False)"

text \<open>
  The caller (\<^verbatim>\<open>handleMove\<close> in App.tsx) sets the terminal flag from the detector:
  \<^verbatim>\<open>const canMove = checkAvailableMoves(finalTiles); const gameOver = !canMove;\<close>
\<close>

definition gameOver :: "(int, 'm) TileData list \<Rightarrow> error + bool" where
  "gameOver finalTiles =
     (case checkAvailableMoves finalTiles of
        Inl e \<Rightarrow> Inl e
      | Inr canMove \<Rightarrow> Inr (\<not> canMove))"

section \<open>Notions used in the statements\<close>

text \<open>A tile that has only the four mandatory fields, as \<^verbatim>\<open>addRandomTile\<close> creates it.\<close>

definition tile :: "int \<Rightarrow> int \<Rightarrow> 'n \<Rightarrow> 'n \<Rightarrow> ('n, 'm) TileData" where
  "tile i v r c =
     \<lparr>tile_id = i, tile_value = v, row = r, col = c,
      isNew = None, isMerged = None, merged = None, mergedFrom = None\<rparr>"

text \<open>
  The sparse list projected onto the grid: the value of the cell \<open>(r, c)\<close> is the value
  of the last listed tile at that position, and \<open>0\<close> when no tile is listed there.
\<close>

definition cellValue :: "('n, 'm) TileData list \<Rightarrow> 'n \<Rightarrow> 'n \<Rightarrow> int" where
  "cellValue ts r c =
     (let here = filter (\<lambda>t. row t = r \<and> col t = c) ts
      in if here = [] then 0 else tile_value (last here))"

text \<open>The coordinates of a tile pass the guard of \<^verbatim>\<open>tilesToGrid\<close> for the size \<open>sz\<close>.\<close>

definition inRange :: "nat \<Rightarrow> ('n::linordered_semidom, 'm) TileData \<Rightarrow> bool" where
  "inRange sz t \<longleftrightarrow> 0 \<le> row t \<and> row t < of_nat sz \<and> 0 \<le> col t \<and> col t < of_nat sz"

text \<open>The board has no empty cell: no cell of the 4x4 projection holds \<open>0\<close>.\<close>

definition boardFull :: "(int, 'm) TileData list \<Rightarrow> bool" where
  "boardFull ts \<longleftrightarrow>
     (\<forall>r \<in> {0..<GRID_SIZE}. \<forall>c \<in> {0..<GRID_SIZE}. cellValue ts (int r) (int c) \<noteq> 0)"

text \<open>
  Well-formed tile lists: no two tiles share a position, every position lies on the 4x4
  board, and every value is a positive power of two (\<open>2 ^ k\<close> for a natural number
  \<open>k\<close>, which is less than the value).
\<close>

definition powerOfTwo :: "int \<Rightarrow> bool" where
  "powerOfTwo v \<longleftrightarrow> (\<exists>k \<in> {..<nat v}. v = 2 ^ k)"

definition well_formed :: "(int, 'm) TileData list \<Rightarrow> bool" where
  "well_formed ts \<longleftrightarrow>
     distinct (map (\<lambda>t. (row t, col t)) ts)
     \<and> (\<forall>t \<in> set ts. inRange GRID_SIZE t \<and> powerOfTwo (tile_value t))"

text \<open>
  The moves address the tiles by their ids (the interface documents \<^verbatim>\<open>id\<close> as a unique
  id). A regular list is a well-formed list whose ids are pairwise distinct.
\<close>

definition regular :: "(int, 'm) TileData list \<Rightarrow> bool" where
  "regular ts \<longleftrightarrow> well_formed ts \<and> distinct (map tile_id ts)"

text \<open>
  An output tile was produced by a merge of this move when it carries twice the value of
  the input tile with the same id.
\<close>

definition doubled :: "(int, 'm) TileData list \<Rightarrow> (int, 'm) TileData \<Rightarrow> bool" where
  "doubled ts t' \<longleftrightarrow> (\<exists>t \<in> set ts. tile_id t = tile_id t' \<and> tile_value t' = 2 * tile_value t)"

text \<open>
  Two tiles of equal value in neighbouring cells of a line along the axis of the
  direction \<open>d\<close>.
\<close>

definition adjacentEqual :: "Direction \<Rightarrow> (int, 'm) TileData list \<Rightarrow> bool" where
  "adjacentEqual d ts \<longleftrightarrow>
     (\<exists>a \<in> set ts. \<exists>b \<in> set ts.
        lineOf d a = lineOf d b \<and> along d b = along d a + 1 \<and> tile_value a = tile_value b)"

section \<open>Functions that describe a move line by line\<close>

text \<open>
  One line as a list of tiles, nearest the target edge first: \<open>collapse\<close> merges from the
  front, each tile at most once; \<open>gain\<close> is the score of these merges; \<open>reindex\<close> assigns
  the coordinates along the line. These functions describe the result of the walk and
  of the last loop on a line whose tiles have distinct ids; the theorems below relate
  them to the code.
\<close>

fun collapse :: "(int, 'm) TileData list \<Rightarrow> (int, 'm) TileData list" where
  "collapse (x # y # zs) =
     (if tile_value x = tile_value y
      then x\<lparr>tile_value := tile_value y * 2, merged := Some True\<rparr> # collapse zs
      else x # collapse (y # zs))"
| "collapse xs = xs"

fun gain :: "(int, 'm) TileData list \<Rightarrow> int" where
  "gain (x # y # zs) =
     (if tile_value x = tile_value y then tile_value y * 2 + gain zs else gain (y # zs))"
| "gain xs = 0"

fun reindex :: "Direction \<Rightarrow> int \<Rightarrow> (int, 'm) TileData list \<Rightarrow> (int, 'm) TileData list" where
  "reindex d i [] = []"
| "reindex d i (x # xs) = setAlong d (targetPos d i) x # reindex d (i + 1) xs"

definition lineTiles :: "Direction \<Rightarrow> (int, 'm) TileData list \<Rightarrow> nat \<Rightarrow> (int, 'm) TileData list" where
  "lineTiles d ts r = sort_key (sortKey d) (filter (\<lambda>t. lineOf d t = int r) ts)"

definition lineResult :: "Direction \<Rightarrow> (int, 'm) TileData list \<Rightarrow> (int, 'm) TileData list" where
  "lineResult d xs = reindex d 0 (collapse xs)"

text \<open>The tiles of all four lines after a move, line by line.\<close>

definition finalTiles :: "Direction \<Rightarrow> (int, 'm) TileData list \<Rightarrow> (int, 'm) TileData list" where
  "finalTiles d ts = concat (map (\<lambda>r. lineResult d (lineTiles d ts r)) [0..<GRID_SIZE])"

text \<open>Storing tiles under their ids, and the effect of one line on the working state.\<close>

definition put :: "(int, 'm) TileData list \<Rightarrow> (int \<rightharpoonup> (int, 'm) TileData) \<Rightarrow> (int \<rightharpoonup> (int, 'm) TileData)" where
  "put ys h = fold (\<lambda>t h. h(tile_id t \<mapsto> t)) ys h"

definition commit :: "(int, 'm) TileData list \<Rightarrow> (int, 'm) TileData list \<Rightarrow> bool \<Rightarrow> 'm Work \<Rightarrow> 'm Work" where
  "commit ys xs ch w =
     w\<lparr>objs := put ys (objs w),
       mapKeys := filter (\<lambda>k. k \<notin> tile_id ` set xs \<or> k \<in> tile_id ` set ys) (mapKeys w),
       score := score w + gain xs,
       hasMoved := (hasMoved w \<or> ch)\<rparr>"

text \<open>Two neighbouring entries of a list of values are equal.\<close>

fun adjV :: "int list \<Rightarrow> bool" where
  "adjV (a # b # r) = (a = b \<or> adjV (b # r))"
| "adjV r = False"

section \<open>Example boards\<close>

text \<open>A small board; a row of four tiles of value 2; the row \<open>[2, 0, 2, 4]\<close>.\<close>

definition boardExample :: "(int, unit) TileData list" where
  "boardExample = [tile 1 2 0 0, tile 2 2 0 1, tile 3 4 0 3, tile 4 8 2 2, tile 5 8 3 2]"

definition rowOfTwos :: "(int, unit) TileData list" where
  "rowOfTwos = [tile 1 2 0 0, tile 2 2 0 1, tile 3 2 0 2, tile 4 2 0 3]"

definition rowTwoTwoFour :: "(int, unit) TileData list" where
  "rowTwoTwoFour = [tile 1 2 0 0, tile 2 2 0 2, tile 3 4 0 3]"

text \<open>A board with fifteen tiles: every cell but \<open>(2, 3)\<close> is occupied.\<close>

definition boardOneEmpty :: "(int, unit) TileData list" where
  "boardOneEmpty =
     [tile 1 2 0 0, tile 2 4 0 1, tile 3 2 0 2, tile 4 4 0 3,
      tile 5 4 1 0, tile 6 2 1 1, tile 7 4 1 2, tile 8 2 1 3,
      tile 9 2 2 0, tile 10 4 2 1, tile 11 2 2 2,
      tile 12 4 3 0, tile 13 2 3 1, tile 14 4 3 2, tile 15 2 3 3]"

text \<open>A full board on which no two neighbouring tiles are equal.\<close>

definition boardTerminal :: "(int, unit) TileData list" where
  "boardTerminal =
     [tile 1 2 0 0, tile 2 4 0 1, tile 3 2 0 2, tile 4 4 0 3,
      tile 5 4 1 0, tile 6 2 1 1, tile 7 4 1 2, tile 8 2 1 3,
      tile 9 2 2 0, tile 10 4 2 1, tile 11 2 2 2, tile 12 4 2 3,
      tile 13 4 3 0, tile 14 2 3 1, tile 15 4 3 2, tile 16 2 3 3]"

text \<open>
  Well-formed lists in which an id occurs twice: two tiles with the id 5; four tiles, two
  of them with the id 1; three tiles, two of them with the id 2; and a full board whose
  tiles at \<open>(0, 1)\<close> and \<open>(1, 0)\<close> both have the id 2.
\<close>

definition twoWithOneId :: "(int, unit) TileData list" where
  "twoWithOneId = [tile 5 16 0 0, tile 5 2 3 3]"

definition fourWithRepeatedId :: "(int, unit) TileData list" where
  "fourWithRepeatedId = [tile 1 16 2 1, tile 1 2 1 0, tile 3 4 1 1, tile 9 8 2 0]"

definition threeWithRepeatedId :: "(int, unit) TileData list" where
  "threeWithRepeatedId = [tile 1 2 0 0, tile 2 2 0 1, tile 2 2 1 0]"

definition boardRepeatedId :: "(int, unit) TileData list" where
  "boardRepeatedId =
     [tile 1 2 0 0, tile 2 2 0 1, tile 3 4 0 2, tile 4 8 0 3,
      tile 2 2 1 0, tile 6 16 1 1, tile 7 32 1 2, tile 8 64 1 3,
      tile 9 2 2 0, tile 10 4 2 1, tile 11 2 2 2, tile 12 4 2 3,
      tile 13 4 3 0, tile 14 2 3 1, tile 15 4 3 2, tile 16 2 3 3]"

section \<open>The dense projection\<close>

lemma elementIndex_Some_iff:
  "elementIndex n x = Some k \<longleftrightarrow> k < n \<and> x = of_nat k"
proof
  assume "elementIndex n x = Some k"
  then show "k < n \<and> x = of_nat k"
    by (auto simp: elementIndex_def find_Some_iff)
next
  assume a: "k < n \<and> x = of_nat k"
  have "\<forall>j<k. (of_nat j :: 'a) \<noteq> of_nat k" by simp
  with a show "elementIndex n x = Some k"
    unfolding elementIndex_def find_Some_iff by (intro exI [of _ k]) auto
qed

lemma elementIndex_None_iff:
  "elementIndex n x = None \<longleftrightarrow> (\<forall>k<n. x \<noteq> of_nat k)"
  by (auto simp: elementIndex_def find_None_iff)

lemma elementIndex_int:
  "elementIndex n (r::int) = (if 0 \<le> r \<and> nat r < n then Some (nat r) else None)"
proof (cases "0 \<le> r \<and> nat r < n")
  case True
  then have "elementIndex n r = Some (nat r)"
    by (simp add: elementIndex_Some_iff)
  with True show ?thesis by simp
next
  case False
  then have "\<forall>k<n. r \<noteq> int k" by auto
  then have "elementIndex n r = None"
    by (simp add: elementIndex_None_iff)
  with False show ?thesis by simp
qed

lemma writeCell_int:
  "writeCell grid (r::int) c v =
     (if 0 \<le> r \<and> nat r < length grid then
        (if 0 \<le> c \<and> nat c < length (grid ! nat r)
         then Inr (grid[nat r := (grid ! nat r)[nat c := v]])
         else Inl OutOfBoundsWrite)
      else Inl TypeError)"
  by (simp add: writeCell_def elementIndex_int)

text \<open>A tile lies on a cell of the matrix of size \<open>sz\<close>.\<close>

lemma placeTile_on_cell:
  assumes "length g = sz" "\<forall>r<sz. length (g ! r) = sz" "i < sz" "j < sz"
    and "row t = of_nat i" "col t = of_nat j"
  shows "placeTile sz t g = Inr (g[i := (g ! i)[j := tile_value t]])"
proof -
  have r: "elementIndex (length g) (row t) = Some i"
    using assms by (simp add: elementIndex_Some_iff)
  have c: "elementIndex (length (g ! i)) (col t) = Some j"
    using assms by (simp add: elementIndex_Some_iff)
  show ?thesis using assms r c by (simp add: placeTile_def writeCell_def)
qed

lemma placeTile_skip:
  "\<not> inRange sz t \<Longrightarrow> placeTile sz t g = Inr g"
  by (auto simp: placeTile_def inRange_def)

lemma placeTile_Inr_on_cell:
  assumes "placeTile sz t g = Inr g'" "inRange sz t" "length g = sz" "\<forall>r<sz. length (g ! r) = sz"
  shows "\<exists>i<sz. \<exists>j<sz. row t = of_nat i \<and> col t = of_nat j"
proof -
  from assms(1,2) have w: "writeCell g (row t) (col t) (tile_value t) = Inr g'"
    by (auto simp: placeTile_def inRange_def split: if_splits)
  then obtain i where i: "elementIndex (length g) (row t) = Some i"
    by (auto simp: writeCell_def split: option.splits)
  with w obtain j where j: "elementIndex (length (g ! i)) (col t) = Some j"
    by (auto simp: writeCell_def split: option.splits)
  from i have i': "i < sz" "row t = of_nat i"
    using assms(3) by (simp_all add: elementIndex_Some_iff)
  from j i' assms(4) have "j < sz" "col t = of_nat j"
    by (simp_all add: elementIndex_Some_iff)
  with i' show ?thesis by blast
qed

lemma forEachTile_cells_gen:
  "length g = sz \<Longrightarrow> \<forall>r<sz. length (g ! r) = sz \<Longrightarrow>
   \<forall>t \<in> set ts. inRange sz t \<longrightarrow> (\<exists>i<sz. \<exists>j<sz. row t = of_nat i \<and> col t = of_nat j) \<Longrightarrow>
   \<exists>g'. forEachTile sz ts g = Inr g' \<and> length g' = sz \<and> (\<forall>r<sz. length (g' ! r) = sz) \<and>
     (\<forall>r<sz. \<forall>c<sz. g' ! r ! c =
        (let here = filter (\<lambda>t. row t = of_nat r \<and> col t = of_nat c) ts
         in if here = [] then g ! r ! c else tile_value (last here)))"
proof (induction ts arbitrary: g)
  case Nil
  then show ?case by simp
next
  case (Cons t ts)
  have rest: "\<forall>t \<in> set ts. inRange sz t \<longrightarrow> (\<exists>i<sz. \<exists>j<sz. row t = of_nat i \<and> col t = of_nat j)"
    using Cons.prems(3) by simp
  show ?case
  proof (cases "inRange sz t")
    case False
    then have p: "placeTile sz t g = Inr g" by (rule placeTile_skip)
    have nothere: "\<And>r c. r < sz \<Longrightarrow> c < sz \<Longrightarrow> (row t = of_nat r \<and> col t = of_nat c) = False"
      using False by (auto simp: inRange_def)
    from Cons.IH [OF Cons.prems(1,2) rest] obtain g' where
      g': "forEachTile sz ts g = Inr g'" "length g' = sz" "\<forall>r<sz. length (g' ! r) = sz"
        "\<forall>r<sz. \<forall>c<sz. g' ! r ! c =
        (let here = filter (\<lambda>t. row t = of_nat r \<and> col t = of_nat c) ts
         in if here = [] then g ! r ! c else tile_value (last here))"
      by blast
    show ?thesis
      using g' p by (simp add: Let_def nothere)
  next
    case True
    with Cons.prems(3) obtain i j where
      ij: "i < sz" "j < sz" "row t = of_nat i" "col t = of_nat j" by auto
    define g1 where "g1 = g[i := (g ! i)[j := tile_value t]]"
    from placeTile_on_cell [OF Cons.prems(1,2) ij] have p: "placeTile sz t g = Inr g1"
      by (simp add: g1_def)
    have l1: "length g1 = sz" using Cons.prems by (simp add: g1_def)
    have l2: "\<forall>r<sz. length (g1 ! r) = sz"
      using Cons.prems(1,2) ij by (auto simp: g1_def nth_list_update)
    from Cons.IH [OF l1 l2 rest] obtain g' where
      g': "forEachTile sz ts g1 = Inr g'" "length g' = sz" "\<forall>r<sz. length (g' ! r) = sz"
        "\<forall>r<sz. \<forall>c<sz. g' ! r ! c =
        (let here = filter (\<lambda>t. row t = of_nat r \<and> col t = of_nat c) ts
         in if here = [] then g1 ! r ! c else tile_value (last here))"
      by blast
    have cell: "g1 ! r ! c = (if row t = of_nat r \<and> col t = of_nat c then tile_value t else g ! r ! c)"
      if "r < sz" "c < sz" for r c
      using that ij Cons.prems(1,2) by (auto simp: g1_def nth_list_update)
    show ?thesis
      using g' p cell by (auto simp: Let_def)
  qed
qed

lemma int_on_cell:
  fixes t :: "(int, 'm) TileData"
  assumes "inRange sz t"
  shows "\<exists>i<sz. \<exists>j<sz. row t = of_nat i \<and> col t = of_nat j"
proof -
  from assms have "nat (row t) < sz" "nat (col t) < sz" "row t = int (nat (row t))"
    "col t = int (nat (col t))"
    by (auto simp: inRange_def)
  then show ?thesis by fastforce
qed

lemma forEachTile_filter:
  "forEachTile sz (filter (inRange sz) ts) g = forEachTile sz ts g"
proof (induction ts arbitrary: g)
  case Nil
  show ?case by simp
next
  case (Cons t ts)
  show ?case
  proof (cases "inRange sz t")
    case True
    then show ?thesis using Cons.IH by (simp split: sum.splits)
  next
    case False
    then have "placeTile sz t g = Inr g" by (rule placeTile_skip)
    then show ?thesis using False Cons.IH by simp
  qed
qed

lemma createEmptyGrid_dims:
  "length (createEmptyGrid sz) = sz" "\<forall>r<sz. length (createEmptyGrid sz ! r) = sz"
  by (simp_all add: createEmptyGrid_def)

lemma tilesToGrid_cells_gen:
  assumes "\<forall>t \<in> set ts. inRange sz t \<longrightarrow> (\<exists>i<sz. \<exists>j<sz. row t = of_nat i \<and> col t = of_nat j)"
  shows "\<exists>g. tilesToGrid ts sz = Inr g \<and> length g = sz \<and> (\<forall>r<sz. length (g ! r) = sz) \<and>
     (\<forall>r<sz. \<forall>c<sz. g ! r ! c = cellValue ts (of_nat r) (of_nat c))"
  using forEachTile_cells_gen [OF createEmptyGrid_dims assms]
  by (auto simp: tilesToGrid_def cellValue_def createEmptyGrid_def Let_def)

lemma tilesToGrid_cells:
  fixes ts :: "(int, 'm) TileData list"
  shows "\<exists>g. tilesToGrid ts sz = Inr g \<and> length g = sz \<and> (\<forall>r<sz. length (g ! r) = sz) \<and>
     (\<forall>r<sz. \<forall>c<sz. g ! r ! c = cellValue ts (int r) (int c))"
  by (rule tilesToGrid_cells_gen) (simp add: int_on_cell)

text \<open>A tile that passes the guard and lies on no cell makes the loop stop with an error.\<close>

lemma forEachTile_off_cell:
  "length g = sz \<Longrightarrow> \<forall>r<sz. length (g ! r) = sz \<Longrightarrow>
   \<exists>t \<in> set ts. inRange sz t \<and> \<not> (\<exists>i<sz. \<exists>j<sz. row t = of_nat i \<and> col t = of_nat j) \<Longrightarrow>
   \<exists>e. forEachTile sz ts g = Inl e"
proof (induction ts arbitrary: g)
  case Nil
  then show ?case by simp
next
  case (Cons t ts)
  show ?case
  proof (cases "placeTile sz t g")
    case (Inl e)
    then show ?thesis by simp
  next
    case (Inr g1)
    have here: "inRange sz t \<Longrightarrow> \<exists>i<sz. \<exists>j<sz. row t = of_nat i \<and> col t = of_nat j"
      using placeTile_Inr_on_cell [OF Inr _ Cons.prems(1,2)] by blast
    with Cons.prems(3) have rest:
      "\<exists>t \<in> set ts. inRange sz t \<and> \<not> (\<exists>i<sz. \<exists>j<sz. row t = of_nat i \<and> col t = of_nat j)"
      by auto
    have dims: "length g1 = sz \<and> (\<forall>r<sz. length (g1 ! r) = sz)"
    proof (cases "inRange sz t")
      case False
      then have "placeTile sz t g = Inr g" by (rule placeTile_skip)
      with Inr Cons.prems(1,2) show ?thesis by simp
    next
      case True
      from here [OF True] obtain i j where
        ij: "i < sz" "j < sz" "row t = of_nat i" "col t = of_nat j" by blast
      from placeTile_on_cell [OF Cons.prems(1,2) ij] Inr
      have "g1 = g[i := (g ! i)[j := tile_value t]]" by simp
      then show ?thesis using Cons.prems(1,2) ij(1) by (auto simp: nth_list_update)
    qed
    from Cons.IH [OF dims [THEN conjunct1] dims [THEN conjunct2] rest] Inr
    show ?thesis by simp
  qed
qed

text \<open>Integers within the bounds of the guard are indices.\<close>

lemma Ints_index:
  fixes x :: real
  assumes "x \<in> \<int>" "0 \<le> x" "x < real sz"
  shows "\<exists>k<sz. x = real k"
proof -
  from assms(1) obtain z where z: "x = of_int z" by (auto elim: Ints_cases)
  with assms(2,3) have "0 \<le> z" "nat z < sz" by auto
  then show ?thesis using z by (intro exI [of _ "nat z"]) simp
qed

lemma on_cell_iff_Ints:
  fixes t :: "(real, 'm) TileData"
  assumes "inRange sz t"
  shows "(\<exists>i<sz. \<exists>j<sz. row t = of_nat i \<and> col t = of_nat j) \<longleftrightarrow> row t \<in> \<int> \<and> col t \<in> \<int>"
proof
  assume "\<exists>i<sz. \<exists>j<sz. row t = of_nat i \<and> col t = of_nat j"
  then show "row t \<in> \<int> \<and> col t \<in> \<int>" by auto
next
  assume a: "row t \<in> \<int> \<and> col t \<in> \<int>"
  from assms have b: "0 \<le> row t" "row t < real sz" "0 \<le> col t" "col t < real sz"
    by (simp_all add: inRange_def)
  from Ints_index [OF a [THEN conjunct1] b(1,2)] Ints_index [OF a [THEN conjunct2] b(3,4)]
  show "\<exists>i<sz. \<exists>j<sz. row t = of_nat i \<and> col t = of_nat j" by auto
qed

lemma forEachTile_TypeError:
  "length g = sz \<Longrightarrow> \<forall>r<sz. length (g ! r) = sz \<Longrightarrow>
   \<forall>t \<in> set ts. inRange sz t \<longrightarrow> (\<exists>j<sz. col t = of_nat j) \<Longrightarrow>
   \<exists>t \<in> set ts. inRange sz t \<and> \<not> (\<exists>i<sz. row t = of_nat i) \<Longrightarrow>
   forEachTile sz ts g = Inl TypeError"
proof (induction ts arbitrary: g)
  case Nil
  then show ?case by simp
next
  case (Cons t ts)
  have cols: "\<forall>t \<in> set ts. inRange sz t \<longrightarrow> (\<exists>j<sz. col t = of_nat j)"
    using Cons.prems(3) by simp
  show ?case
  proof (cases "inRange sz t \<and> \<not> (\<exists>i<sz. row t = of_nat i)")
    case True
    then have "elementIndex (length g) (row t) = None"
      using Cons.prems(1) by (simp add: elementIndex_None_iff)
    then have "placeTile sz t g = Inl TypeError"
      using True by (simp add: placeTile_def writeCell_def inRange_def)
    then show ?thesis by simp
  next
    case False
    with Cons.prems(4) have rest: "\<exists>t \<in> set ts. inRange sz t \<and> \<not> (\<exists>i<sz. row t = of_nat i)"
      by auto
    show ?thesis
    proof (cases "inRange sz t")
      case out: False
      then have "placeTile sz t g = Inr g" by (rule placeTile_skip)
      then show ?thesis using Cons.IH [OF Cons.prems(1,2) cols rest] by simp
    next
      case True
      with False Cons.prems(3) obtain i j where
        ij: "i < sz" "j < sz" "row t = of_nat i" "col t = of_nat j" by auto
      define g1 where "g1 = g[i := (g ! i)[j := tile_value t]]"
      from placeTile_on_cell [OF Cons.prems(1,2) ij] have p: "placeTile sz t g = Inr g1"
        by (simp add: g1_def)
      have l1: "length g1 = sz" using Cons.prems by (simp add: g1_def)
      have l2: "\<forall>r<sz. length (g1 ! r) = sz"
        using Cons.prems(1,2) ij by (auto simp: g1_def nth_list_update)
      show ?thesis using Cons.IH [OF l1 l2 cols rest] p by simp
    qed
  qed
qed

text \<open>
  C10 (as stated). A tile at row \<open>3/2\<close> and column \<open>0\<close> passes the guard for the size 4,
  \<^verbatim>\<open>grid[1.5]\<close> is \<^verbatim>\<open>undefined\<close>, and the assignment raises a \<open>TypeError\<close>. A tile at row
  \<open>0\<close> and column \<open>3/2\<close> passes the guard as well, and the assignment writes outside the
  matrix.
\<close>

theorem tilesToGrid_fractional_counterexample:
  "inRange 4 (tile 1 2 (3 / 2) 0 :: (real, unit) TileData)
   \<and> tilesToGrid [tile 1 2 (3 / 2) 0 :: (real, unit) TileData] 4 = Inl TypeError
   \<and> inRange 4 (tile 1 2 0 (3 / 2) :: (real, unit) TileData)
   \<and> tilesToGrid [tile 1 2 0 (3 / 2) :: (real, unit) TileData] 4 = Inl OutOfBoundsWrite"
  by code_simp

text \<open>
  C10 (amended). The coordinates of the tiles are arbitrary real numbers and \<open>sz\<close> is
  a length that an array can have (a natural number below \<open>2^32\<close>). \<^verbatim>\<open>tilesToGrid\<close>
  returns a matrix, without a failure and without a write outside the matrix, exactly
  when every tile whose row and column both lie in \<open>[0, sz)\<close> has an integer row and an
  integer column (as is the case when all coordinates are integers, of any size and
  sign). The matrix then has \<open>sz\<close> rows of \<open>sz\<close> cells, every cell holds the projection of
  the list, and the tiles whose row or column lies outside \<open>[0, sz)\<close> have no effect on
  the result. When the columns of the tiles within \<open>[0, sz)\<close> are integers and one of
  their rows is not, the call raises a \<open>TypeError\<close>.
\<close>

theorem tilesToGrid_total:
  fixes ts :: "(real, 'm) TileData list"
  assumes "sz < 2 ^ 32"
  shows "((\<exists>g. tilesToGrid ts sz = Inr g) \<longleftrightarrow>
            (\<forall>t \<in> set ts. inRange sz t \<longrightarrow> row t \<in> \<int> \<and> col t \<in> \<int>))
       \<and> (\<forall>g. tilesToGrid ts sz = Inr g \<longrightarrow>
            length g = sz \<and> (\<forall>r<sz. length (g ! r) = sz)
            \<and> (\<forall>r<sz. \<forall>c<sz. g ! r ! c = cellValue ts (real r) (real c))
            \<and> tilesToGrid (filter (inRange sz) ts) sz = Inr g)
       \<and> ((\<forall>t \<in> set ts. inRange sz t \<longrightarrow> col t \<in> \<int>) \<and> (\<exists>t \<in> set ts. inRange sz t \<and> row t \<notin> \<int>)
            \<longrightarrow> tilesToGrid ts sz = Inl TypeError)"
proof -
  let ?cells = "\<forall>t \<in> set ts. inRange sz t \<longrightarrow> (\<exists>i<sz. \<exists>j<sz. row t = of_nat i \<and> col t = of_nat j)"
  have eq: "?cells \<longleftrightarrow> (\<forall>t \<in> set ts. inRange sz t \<longrightarrow> row t \<in> \<int> \<and> col t \<in> \<int>)"
    using on_cell_iff_Ints by blast
  have ok: "\<exists>g. tilesToGrid ts sz = Inr g" if ?cells
    using tilesToGrid_cells_gen [OF that] by blast
  have bad: "\<not> (\<exists>g. tilesToGrid ts sz = Inr g)" if "\<not> ?cells"
  proof -
    from that have "\<exists>t \<in> set ts. inRange sz t
        \<and> \<not> (\<exists>i<sz. \<exists>j<sz. row t = of_nat i \<and> col t = of_nat j)"
      by blast
    from forEachTile_off_cell [OF createEmptyGrid_dims this]
    show ?thesis by (auto simp: tilesToGrid_def)
  qed
  have first: "(\<exists>g. tilesToGrid ts sz = Inr g) \<longleftrightarrow>
            (\<forall>t \<in> set ts. inRange sz t \<longrightarrow> row t \<in> \<int> \<and> col t \<in> \<int>)"
    using ok bad eq by blast
  have second: "length g = sz \<and> (\<forall>r<sz. length (g ! r) = sz)
            \<and> (\<forall>r<sz. \<forall>c<sz. g ! r ! c = cellValue ts (real r) (real c))
            \<and> tilesToGrid (filter (inRange sz) ts) sz = Inr g" if g: "tilesToGrid ts sz = Inr g" for g
  proof -
    from g bad have c: ?cells by blast
    from tilesToGrid_cells_gen [OF c] g
    have "length g = sz \<and> (\<forall>r<sz. length (g ! r) = sz)
            \<and> (\<forall>r<sz. \<forall>c<sz. g ! r ! c = cellValue ts (real r) (real c))"
      by auto
    moreover have "tilesToGrid (filter (inRange sz) ts) sz = Inr g"
      using g by (simp add: tilesToGrid_def forEachTile_filter)
    ultimately show ?thesis by blast
  qed
  have third: "tilesToGrid ts sz = Inl TypeError"
    if c: "\<forall>t \<in> set ts. inRange sz t \<longrightarrow> col t \<in> \<int>" and r: "\<exists>t \<in> set ts. inRange sz t \<and> row t \<notin> \<int>"
  proof -
    have cols: "\<forall>t \<in> set ts. inRange sz t \<longrightarrow> (\<exists>j<sz. col t = of_nat j)"
    proof (intro ballI impI)
      fix t assume t: "t \<in> set ts" "inRange sz t"
      with c have "col t \<in> \<int>" by blast
      moreover from t(2) have "0 \<le> col t" "col t < real sz" by (simp_all add: inRange_def)
      ultimately show "\<exists>j<sz. col t = of_nat j" using Ints_index by blast
    qed
    from r have rows: "\<exists>t \<in> set ts. inRange sz t \<and> \<not> (\<exists>i<sz. row t = of_nat i)"
      by auto
    from forEachTile_TypeError [OF createEmptyGrid_dims cols rows]
    show ?thesis by (simp add: tilesToGrid_def)
  qed
  show ?thesis using first second third by blast
qed

theorem tilesToGrid_total_witness:
  "(4::nat) < 2 ^ 32
   \<and> tilesToGrid [tile 1 2 0 0, tile 2 4 7 1, tile 3 8 (- 1) 0, tile 4 16 2 3,
        tile 5 32 (5 / 2) 9 :: (real, unit) TileData] 4
     = Inr [[2, 0, 0, 0], [0, 0, 0, 0], [0, 0, 0, 16], [0, 0, 0, 0]]
   \<and> tilesToGrid (filter (inRange 4)
        [tile 1 2 0 0, tile 2 4 7 1, tile 3 8 (- 1) 0, tile 4 16 2 3,
         tile 5 32 (5 / 2) 9 :: (real, unit) TileData]) 4
     = Inr [[2, 0, 0, 0], [0, 0, 0, 0], [0, 0, 0, 16], [0, 0, 0, 0]]"
proof -
  have b: "(4::nat) < 2 ^ 32" by simp
  have e: "tilesToGrid [tile 1 2 0 0, tile 2 4 7 1, tile 3 8 (- 1) 0, tile 4 16 2 3,
        tile 5 32 (5 / 2) 9 :: (real, unit) TileData] 4
     = Inr [[2, 0, 0, 0], [0, 0, 0, 0], [0, 0, 0, 16], [0, 0, 0, 0]]"
    by code_simp
  from tilesToGrid_total [OF b, of "[tile 1 2 0 0, tile 2 4 7 1, tile 3 8 (- 1) 0, tile 4 16 2 3,
        tile 5 32 (5 / 2) 9 :: (real, unit) TileData]"]
  show ?thesis unfolding e by auto
qed

section \<open>A run of three equal tiles\<close>

text \<open>
  C6. The row \<open>[2, 2, 2, 0]\<close> moved left is \<open>[4, 2, 0, 0]\<close> with a score increase of 4,
  for the row function on numbers and for \<^verbatim>\<open>moveLeft\<close> on tiles: three tiles of value 2 in
  the columns 0, 1, 2 of any row \<open>r\<close>, with any three distinct ids, become the first tile
  with value 4 in column 0 and the third tile with value 2 in column 1; the second tile
  is deleted and the third is not merged into the first.
\<close>

theorem three_equal_tiles_merge_once:
  assumes "r \<in> {0, 1, 2, 3}" and "distinct [a, b, c]"
  shows "moveRowLeft [2, 2, 2, 0] = ([4, 2, 0, 0], 4)
   \<and> (\<exists>g0 g1.
           tilesToGrid [tile a 2 r 0, tile b 2 r 1, tile c 2 r 2 :: (int, 'm) TileData] 4 = Inr g0
         \<and> g0 ! nat r = [2, 2, 2, 0]
         \<and> moveLeft [tile a 2 r 0, tile b 2 r 1, tile c 2 r 2 :: (int, 'm) TileData]
             = Inr \<lparr>updatedTiles = [(tile a 4 r 0)\<lparr>merged := Some True\<rparr>, tile c 2 r 1],
                    scoreIncrease = 4, moved = True\<rparr>
         \<and> tilesToGrid [(tile a 4 r 0)\<lparr>merged := Some True\<rparr>, tile c 2 r 1 :: (int, 'm) TileData] 4 = Inr g1
         \<and> g1 ! nat r = [4, 2, 0, 0])"
proof -
  have rowfn: "moveRowLeft [2, 2, 2, 0] = ([4, 2, 0, 0], 4)"
    by code_simp
  have before: "\<exists>g0. tilesToGrid [tile a 2 r 0, tile b 2 r 1, tile c 2 r 2 :: (int, 'm) TileData] 4 = Inr g0
         \<and> g0 ! nat r = [2, 2, 2, 0]"
    using assms(1)
    by (auto simp: tilesToGrid_def createEmptyGrid_def placeTile_def writeCell_int tile_def
        eval_nat_numeral)
  have mv: "moveLeft [tile a 2 r 0, tile b 2 r 1, tile c 2 r 2 :: (int, 'm) TileData]
             = Inr \<lparr>updatedTiles = [(tile a 4 r 0)\<lparr>merged := Some True\<rparr>, tile c 2 r 1],
                    scoreIncrease = 4, moved = True\<rparr>"
    using assms
    by (auto simp: moveLeft_def move_def GRID_SIZE_def copyTiles_def processLine_def getAll_def
        tile_def deref_def upt_rec)
  have after: "\<exists>g1. tilesToGrid [(tile a 4 r 0)\<lparr>merged := Some True\<rparr>, tile c 2 r 1 :: (int, 'm) TileData] 4 = Inr g1
         \<and> g1 ! nat r = [4, 2, 0, 0]"
    using assms(1)
    by (auto simp: tilesToGrid_def createEmptyGrid_def placeTile_def writeCell_int tile_def
        eval_nat_numeral)
  show ?thesis
    using rowfn before mv after by blast
qed

theorem three_equal_tiles_merge_once_witness:
  "(0::int) \<in> {0, 1, 2, 3} \<and> distinct [1, 2, 3 :: int]
   \<and> moveLeft [tile 1 2 0 0, tile 2 2 0 1, tile 3 2 0 2 :: (int, unit) TileData]
       = Inr \<lparr>updatedTiles = [(tile 1 4 0 0)\<lparr>merged := Some True\<rparr>, tile 3 2 0 1],
              scoreIncrease = 4, moved = True\<rparr>"
proof -
  have h: "(0::int) \<in> {0, 1, 2, 3}" "distinct [1, 2, 3 :: int]"
    by simp_all
  from three_equal_tiles_merge_once [OF h, where ?'m = unit] h
  show ?thesis by blast
qed

section \<open>The spawner\<close>

lemma all_less_4: "(\<forall>r<4. P r) \<longleftrightarrow> P 0 \<and> P 1 \<and> P 2 \<and> P (3::nat)"
proof -
  have "r < 4 \<longleftrightarrow> r = 0 \<or> r = 1 \<or> r = 2 \<or> r = 3" for r :: nat by linarith
  then show ?thesis by auto
qed

lemma emptyCells_Nil_iff:
  "emptyCells g = [] \<longleftrightarrow> (\<forall>r<4. \<forall>c<4. g ! r ! c \<noteq> 0)"
proof -
  have top: "topRowEmpty g = [] \<longleftrightarrow> (\<forall>c<4. g ! 0 ! c \<noteq> 0)"
    by (auto simp: topRowEmpty_def GRID_SIZE_def filter_empty_conv)
  have rest: "restEmpty g = [] \<longleftrightarrow> (\<forall>r<4. 0 < r \<longrightarrow> (\<forall>c<4. g ! r ! c \<noteq> 0))"
    by (auto simp: restEmpty_def GRID_SIZE_def filter_empty_conv)
  have split: "(\<forall>r<4. \<forall>c<4. g ! r ! c \<noteq> 0) \<longleftrightarrow>
     (\<forall>c<4. g ! 0 ! c \<noteq> 0) \<and> (\<forall>r<4. 0 < r \<longrightarrow> (\<forall>c<4. g ! r ! c \<noteq> 0))"
    by (metis gr0I zero_less_numeral)
  show ?thesis
    unfolding emptyCells_def split using top rest by auto
qed

lemma filter_upt_single:
  assumes "k < n" "P k" "\<forall>j<n. j \<noteq> k \<longrightarrow> \<not> P j"
  shows "filter P [0..<n] = [k]"
proof -
  have "[0..<n] = [0..<k] @ k # [Suc k..<n]"
    using assms(1) by (metis less_imp_add_positive upt_add_eq_append upt_conv_Cons zero_le)
  moreover have "filter P [0..<k] = []" using assms by (auto simp: filter_empty_conv)
  moreover have "filter P [Suc k..<n] = []" using assms by (auto simp: filter_empty_conv)
  ultimately show ?thesis using assms(2) by simp
qed

lemma emptyCells_single:
  assumes r0: "r0 < 4" and c0: "c0 < 4"
    and only: "\<forall>r<4. \<forall>c<4. (g ! r ! c = 0) = (r = r0 \<and> c = c0)"
  shows "emptyCells g = [(int r0, int c0)]"
proof -
  define F where "F r = filter (\<lambda>c. g ! r ! c = 0) [0..<4]" for r
  have row0: "F r0 = [c0]"
    unfolding F_def using r0 c0 only by (intro filter_upt_single) auto
  have other: "F r = []" if "r < 4" "r \<noteq> r0" for r
    unfolding F_def using that only by (auto simp: filter_empty_conv)
  have top: "topRowEmpty g = map (\<lambda>c. (0, int c)) (F 0)"
    by (simp add: topRowEmpty_def GRID_SIZE_def F_def)
  have "[1..<4] = [1, 2, 3::nat]" by (simp add: upt_rec)
  then have rest: "restEmpty g = map (\<lambda>c. (1, int c)) (F 1) @ map (\<lambda>c. (2, int c)) (F 2)
       @ map (\<lambda>c. (3, int c)) (F 3)"
    by (simp add: restEmpty_def GRID_SIZE_def F_def)
  from r0 consider "r0 = 0" | "r0 = 1" | "r0 = 2" | "r0 = 3" by linarith
  then show ?thesis
  proof cases
    case 1
    then show ?thesis using row0 by (simp add: emptyCells_def top)
  next
    case 2
    then show ?thesis using row0 other [of 0] other [of 2] other [of 3]
      by (simp add: emptyCells_def top rest)
  next
    case 3
    then show ?thesis using row0 other [of 0] other [of 1] other [of 3]
      by (simp add: emptyCells_def top rest)
  next
    case 4
    then show ?thesis using row0 other [of 0] other [of 1] other [of 2]
      by (simp add: emptyCells_def top rest)
  qed
qed

lemma addRandomTile_None_iff:
  "(\<exists>n'. addRandomTile n u1 u2 ts = Inr (None, n')) \<longleftrightarrow>
      (\<forall>r<4. \<forall>c<4. cellValue ts (int r) (int c) \<noteq> 0)"
proof -
  from tilesToGrid_cells [of ts 4] obtain g where
    g: "tilesToGrid ts 4 = Inr g" "\<forall>r<4. \<forall>c<4. g ! r ! c = cellValue ts (int r) (int c)"
    by blast
  have none: "(\<exists>n'. addRandomTile n u1 u2 ts = Inr (None, n')) \<longleftrightarrow> emptyCells g = []"
    using g(1) by (auto simp: addRandomTile_def GRID_SIZE_def Let_def split: prod.splits)
  show ?thesis
    unfolding none emptyCells_Nil_iff using g(2) by auto
qed

lemma addRandomTile_single_cell:
  assumes u: "0 \<le> u1" "u1 < 1" and rc: "r0 < 4" "c0 < 4"
    and only: "\<forall>r<4. \<forall>c<4. (cellValue ts (int r) (int c) = 0) = (r = r0 \<and> c = c0)"
  shows "\<exists>t. addRandomTile n u1 u2 ts = Inr (Some \<lparr>tilesWithNew = ts @ [t], newTile = t\<rparr>, n + 1)
            \<and> row t = int r0 \<and> col t = int c0 \<and> tile_id t = n \<and> tile_value t \<in> {2, 4}"
proof -
  from tilesToGrid_cells [of ts 4] obtain g where
    g: "tilesToGrid ts 4 = Inr g" "\<forall>r<4. \<forall>c<4. g ! r ! c = cellValue ts (int r) (int c)"
    by blast
  have "\<forall>r<4. \<forall>c<4. (g ! r ! c = 0) = (r = r0 \<and> c = c0)"
    using g(2) only by auto
  from emptyCells_single [OF rc this] have cells: "emptyCells g = [(int r0, int c0)]" .
  have fl: "\<lfloor>u1\<rfloor> = 0" using u by (simp add: floor_eq_iff)
  show ?thesis
    using g(1) cells fl by (simp add: addRandomTile_def GRID_SIZE_def Let_def)
qed

text \<open>
  C7. \<^verbatim>\<open>addRandomTile\<close> returns \<^verbatim>\<open>null\<close> exactly when no cell of the 4x4 projection of the
  tile list is empty (holds \<open>0\<close>); and when exactly one cell \<open>(r0, c0)\<close> is empty, then
  for every pair of random numbers (the first in \<open>[0, 1)\<close>) the result is the input list
  with one tile appended, which lies at \<open>(r0, c0)\<close>, carries the value 2 or 4 and the id
  taken from the counter.
\<close>

theorem addRandomTile_no_space_or_fill:
  "((\<exists>n'. addRandomTile n u1 u2 ts = Inr (None, n')) \<longleftrightarrow>
      (\<forall>r<4. \<forall>c<4. cellValue ts (int r) (int c) \<noteq> 0))
   \<and> (0 \<le> u1 \<and> u1 < 1 \<and> r0 < 4 \<and> c0 < 4
        \<and> (\<forall>r<4. \<forall>c<4. (cellValue ts (int r) (int c) = 0) = (r = r0 \<and> c = c0))
      \<longrightarrow> (\<exists>t. addRandomTile n u1 u2 ts = Inr (Some \<lparr>tilesWithNew = ts @ [t], newTile = t\<rparr>, n + 1)
            \<and> row t = int r0 \<and> col t = int c0 \<and> tile_id t = n \<and> tile_value t \<in> {2, 4}))"
  using addRandomTile_None_iff [of n u1 u2 ts] addRandomTile_single_cell [of u1 r0 c0 ts n u2]
  by blast

theorem addRandomTile_no_space_or_fill_witness:
  "(0::real) \<le> 1 / 2 \<and> (1::real) / 2 < 1 \<and> (2::nat) < 4 \<and> (3::nat) < 4
   \<and> cellValue boardOneEmpty (int 2) (int 3) = 0
   \<and> (\<exists>t. addRandomTile 100 (1 / 2) (19 / 20) boardOneEmpty
          = Inr (Some \<lparr>tilesWithNew = boardOneEmpty @ [t], newTile = t\<rparr>, 100 + 1)
        \<and> row t = int 2 \<and> col t = int 3 \<and> tile_id t = 100 \<and> tile_value t \<in> {2, 4})
   \<and> (\<exists>n'. addRandomTile 100 (1 / 2) (19 / 20) (boardOneEmpty @ [tile 16 8 2 3]) = Inr (None, n'))"
proof -
  have h: "\<forall>r<4. \<forall>c<4. (cellValue boardOneEmpty (int r) (int c) = 0) = (r = 2 \<and> c = 3)"
    by (simp add: all_less_4 cellValue_def boardOneEmpty_def tile_def)
  have f: "\<forall>r<4. \<forall>c<4. cellValue (boardOneEmpty @ [tile 16 8 2 3]) (int r) (int c) \<noteq> 0"
    by (simp add: all_less_4 cellValue_def boardOneEmpty_def tile_def)
  from addRandomTile_no_space_or_fill [of 100 "1 / 2" "19 / 20" boardOneEmpty 2 3] h
  have a: "\<exists>t. addRandomTile 100 (1 / 2) (19 / 20) boardOneEmpty
          = Inr (Some \<lparr>tilesWithNew = boardOneEmpty @ [t], newTile = t\<rparr>, 100 + 1)
        \<and> row t = int 2 \<and> col t = int 3 \<and> tile_id t = 100 \<and> tile_value t \<in> {2, 4}"
    by simp
  from addRandomTile_no_space_or_fill
    [of 100 "1 / 2" "19 / 20" "boardOneEmpty @ [tile 16 8 2 3]" 0 0] f
  have b: "\<exists>n'. addRandomTile 100 (1 / 2) (19 / 20) (boardOneEmpty @ [tile 16 8 2 3]) = Inr (None, n')"
    by blast
  have c: "cellValue boardOneEmpty (int 2) (int 3) = 0"
    by (simp add: cellValue_def boardOneEmpty_def tile_def)
  show ?thesis using c a b by simp
qed

section \<open>The walk and the last loop on one line\<close>

lemma collapse_ids_subset: "tile_id ` set (collapse xs) \<subseteq> tile_id ` set xs"
  by (induction xs rule: collapse.induct) auto

lemma collapse_distinct: "distinct (map tile_id xs) \<Longrightarrow> distinct (map tile_id (collapse xs))"
proof (induction xs rule: collapse.induct)
  case (1 x y zs)
  then show ?case using collapse_ids_subset [of zs] collapse_ids_subset [of "y # zs"]
    by (auto split: if_splits)
qed auto

lemma collapse_length: "length (collapse xs) \<le> length xs"
  by (induction xs rule: collapse.induct) auto

lemma put_Nil [simp]: "put [] h = h"
  by (simp add: put_def)

lemma put_Cons: "put (y # ys) h = put ys (h(tile_id y \<mapsto> y))"
  by (simp add: put_def)

lemma put_out: "k \<notin> tile_id ` set ys \<Longrightarrow> put ys h k = h k"
  by (induction ys arbitrary: h) (auto simp: put_Cons)

lemma put_in: "distinct (map tile_id ys) \<Longrightarrow> y \<in> set ys \<Longrightarrow> put ys h (tile_id y) = Some y"
  by (induction ys arbitrary: h) (auto simp: put_Cons put_out)

lemma put_same: "h k = Some y \<Longrightarrow> h(k \<mapsto> y) = h"
  by (rule ext) simp

lemma walk_collapse:
  assumes "distinct (map tile_id xs)"
    and "\<forall>x \<in> set xs. objs w (tile_id x) = Some x"
    and "\<forall>x \<in> set xs. tile_value x \<noteq> 0"
    and "\<forall>k. lm = Some k \<longrightarrow> k \<notin> tile_id ` set xs"
  shows "(nr = [] \<or> lm = Some (tile_id (deref w (last nr))) \<longrightarrow>
           walk sz (map tile_id xs) nr lm w
             = (nr @ map tile_id (collapse xs),
                commit (collapse xs) xs (length (collapse xs) \<noteq> length xs) w))
       \<and> (\<forall>L. nr \<noteq> [] \<and> objs w (last nr) = Some L \<and> tile_id L = last nr
               \<and> lm \<noteq> Some (last nr) \<and> last nr \<notin> tile_id ` set xs \<longrightarrow>
           walk sz (map tile_id xs) nr lm w
             = (butlast nr @ map tile_id (collapse (L # xs)),
                commit (collapse (L # xs)) (L # xs)
                  (length (collapse (L # xs)) \<noteq> length (L # xs)) w))"
  using assms
proof (induction xs arbitrary: nr lm w)
  case Nil
  show ?case
  proof (intro conjI impI allI)
    show "walk sz (map tile_id []) nr lm w
             = (nr @ map tile_id (collapse []),
                commit (collapse []) [] (length (collapse ([]::(int, 'a) TileData list)) \<noteq> length ([]::(int, 'a) TileData list)) w)"
      by (simp add: commit_def)
  next
    fix L
    assume a: "nr \<noteq> [] \<and> objs w (last nr) = Some L \<and> tile_id L = last nr
               \<and> lm \<noteq> Some (last nr) \<and> last nr \<notin> tile_id ` set ([]::(int, 'a) TileData list)"
    then have "put [L] (objs w) = objs w"
      by (simp add: put_Cons put_same)
    moreover have "filter (\<lambda>k. k \<notin> tile_id ` set [L] \<or> k \<in> tile_id ` set [L]) (mapKeys w) = mapKeys w"
      by simp
    ultimately have "commit [L] [L] False w = w"
      by (simp add: commit_def)
    then show "walk sz (map tile_id []) nr lm w
             = (butlast nr @ map tile_id (collapse (L # [])),
                commit (collapse (L # [])) (L # [])
                  (length (collapse (L # [])) \<noteq> length (L # [])) w)"
      using a by simp
  qed
next
  case (Cons x xs)
  have dx: "distinct (map tile_id xs)" and xnot: "tile_id x \<notin> tile_id ` set xs"
    using Cons.prems(1) by auto
  have hx: "objs w (tile_id x) = Some x" and hxs: "\<forall>y \<in> set xs. objs w (tile_id y) = Some y"
    using Cons.prems(2) by auto
  have vx: "tile_value x \<noteq> 0" and vxs: "\<forall>y \<in> set xs. tile_value y \<noteq> 0"
    using Cons.prems(3) by auto
  have lmx: "lm \<noteq> Some (tile_id x)" and lmxs: "\<forall>k. lm = Some k \<longrightarrow> k \<notin> tile_id ` set xs"
    using Cons.prems(4) by auto
  have cur: "deref w (tile_id x) = x"
    using hx by (simp add: deref_def)
  note IH = Cons.IH
  have pushB: "walk sz (map tile_id xs) (nr' @ [tile_id x]) lm w
      = (nr' @ map tile_id (collapse (x # xs)),
         commit (collapse (x # xs)) (x # xs) (length (collapse (x # xs)) \<noteq> length (x # xs)) w)"
    for nr'
    using IH [OF dx hxs vxs lmxs, of "nr' @ [tile_id x]", THEN conjunct2, rule_format, of x]
      hx lmx xnot by simp
  show ?case
  proof (intro conjI impI allI)
    assume A: "nr = [] \<or> lm = Some (tile_id (deref w (last nr)))"
    have "walk sz (map tile_id (x # xs)) nr lm w = walk sz (map tile_id xs) (nr @ [tile_id x]) lm w"
      using A vx cur by (auto simp: Let_def)
    then show "walk sz (map tile_id (x # xs)) nr lm w
             = (nr @ map tile_id (collapse (x # xs)),
                commit (collapse (x # xs)) (x # xs) (length (collapse (x # xs)) \<noteq> length (x # xs)) w)"
      using pushB by simp
  next
    fix L
    assume B: "nr \<noteq> [] \<and> objs w (last nr) = Some L \<and> tile_id L = last nr
               \<and> lm \<noteq> Some (last nr) \<and> last nr \<notin> tile_id ` set (x # xs)"
    define l where "l = last nr"
    have nr: "nr = butlast nr @ [l]" using B by (simp add: l_def)
    have hl: "objs w l = Some L" "tile_id L = l" "lm \<noteq> Some l" "l \<noteq> tile_id x" "l \<notin> tile_id ` set xs"
      using B by (auto simp: l_def)
    have dl: "deref w l = L" using hl by (simp add: deref_def)
    show "walk sz (map tile_id (x # xs)) nr lm w
             = (butlast nr @ map tile_id (collapse (L # x # xs)),
                commit (collapse (L # x # xs)) (L # x # xs)
                  (length (collapse (L # x # xs)) \<noteq> length (L # x # xs)) w)"
    proof (cases "tile_value L = tile_value x")
      case False
      have "walk sz (map tile_id (x # xs)) nr lm w = walk sz (map tile_id xs) (nr @ [tile_id x]) lm w"
        using False vx cur dl B by (auto simp: Let_def l_def)
      also have "\<dots> = (nr @ map tile_id (collapse (x # xs)),
         commit (collapse (x # xs)) (x # xs) (length (collapse (x # xs)) \<noteq> length (x # xs)) w)"
        by (rule pushB)
      also have "nr @ map tile_id (collapse (x # xs)) = butlast nr @ map tile_id (collapse (L # x # xs))"
        using False hl by (subst nr) simp
      also have "commit (collapse (x # xs)) (x # xs) (length (collapse (x # xs)) \<noteq> length (x # xs)) w
         = commit (collapse (L # x # xs)) (L # x # xs)
                  (length (collapse (L # x # xs)) \<noteq> length (L # x # xs)) w"
      proof -
        have "put (L # collapse (x # xs)) (objs w) = put (collapse (x # xs)) (objs w)"
          using hl by (simp add: put_Cons put_same)
        moreover have "filter (\<lambda>k. k \<notin> tile_id ` set (L # x # xs) \<or> k \<in> tile_id ` set (L # collapse (x # xs))) (mapKeys w)
           = filter (\<lambda>k. k \<notin> tile_id ` set (x # xs) \<or> k \<in> tile_id ` set (collapse (x # xs))) (mapKeys w)"
          using hl by (intro filter_cong) auto
        ultimately show ?thesis
          using False by (simp add: commit_def)
      qed
      finally show ?thesis .
    next
      case True
      define L' where "L' = L\<lparr>tile_value := tile_value x * 2, merged := Some True\<rparr>"
      define w1 where "w1 = w\<lparr>objs := (objs w)(l \<mapsto> L'),
                 mapKeys := removeAll (tile_id x) (mapKeys w),
                 score := score w + tile_value x * 2,
                 hasMoved := True\<rparr>"
      have idL': "tile_id L' = l" using hl by (simp add: L'_def)
      have "walk sz (map tile_id (x # xs)) nr lm w = walk sz (map tile_id xs) nr (Some l) w1"
        using True vx cur dl B hl by (auto simp: Let_def l_def w1_def L'_def)
      also have "\<dots> = (nr @ map tile_id (collapse xs),
                commit (collapse xs) xs (length (collapse xs) \<noteq> length xs) w1)"
      proof -
        have h1: "\<forall>y \<in> set xs. objs w1 (tile_id y) = Some y"
          using hxs hl(5) by (auto simp: w1_def)
        have lm1: "\<forall>k. Some l = Some k \<longrightarrow> k \<notin> tile_id ` set xs"
          using hl by simp
        have "deref w1 (last nr) = L'"
          by (simp add: deref_def w1_def l_def)
        then have "nr = [] \<or> Some l = Some (tile_id (deref w1 (last nr)))"
          using idL' by simp
        then show ?thesis
          by (rule IH [OF dx h1 vxs lm1, of nr, THEN conjunct1, rule_format])
      qed
      also have "nr @ map tile_id (collapse xs) = butlast nr @ map tile_id (collapse (L # x # xs))"
        using True idL' by (subst nr) (simp add: L'_def)
      also have "commit (collapse xs) xs (length (collapse xs) \<noteq> length xs) w1
         = commit (collapse (L # x # xs)) (L # x # xs)
                  (length (collapse (L # x # xs)) \<noteq> length (L # x # xs)) w"
      proof -
        have c: "collapse (L # x # xs) = L' # collapse xs"
          using True by (simp add: L'_def)
        have "put (L' # collapse xs) (objs w) = put (collapse xs) (objs w1)"
          using idL' by (simp add: put_Cons w1_def)
        moreover have "filter (\<lambda>k. k \<notin> tile_id ` set (L # x # xs) \<or> k \<in> tile_id ` set (L' # collapse xs)) (mapKeys w)
           = filter (\<lambda>k. k \<notin> tile_id ` set xs \<or> k \<in> tile_id ` set (collapse xs)) (mapKeys w1)"
          unfolding w1_def removeAll_filter_not_eq
          using hl idL' xnot collapse_ids_subset [of xs]
          by (auto simp: filter_filter intro!: filter_cong)
        moreover have "length (collapse xs) \<le> length xs" by (rule collapse_length)
        ultimately show ?thesis
          unfolding c using True by (simp add: commit_def w1_def)
      qed
      finally show ?thesis .
    qed
  qed
qed

lemma walk_start:
  assumes "distinct (map tile_id xs)"
    and "\<forall>x \<in> set xs. objs w (tile_id x) = Some x"
    and "\<forall>x \<in> set xs. tile_value x \<noteq> 0"
  shows "walk sz (map tile_id xs) [] None w
           = (map tile_id (collapse xs),
              commit (collapse xs) xs (length (collapse xs) \<noteq> length xs) w)"
  using walk_collapse [OF assms, of None "[]" sz] by simp

lemma setAlong_id [simp]: "tile_id (setAlong d v t) = tile_id t"
  by (cases d) simp_all

lemma setAlong_value [simp]: "tile_value (setAlong d v t) = tile_value t"
  by (cases d) simp_all

lemma setAlong_line [simp]: "lineOf d (setAlong d v t) = lineOf d t"
  by (cases d) simp_all

lemma setAlong_along [simp]: "along d (setAlong d v t) = v"
  by (cases d) simp_all

lemma setAlong_same: "along d t = v \<Longrightarrow> setAlong d v t = t"
  by (cases d) auto

lemma setAlong_eq_iff: "setAlong d v t = t \<longleftrightarrow> along d t = v"
  by (metis setAlong_along setAlong_same)

lemma reindex_ids [simp]: "map tile_id (reindex d i ys) = map tile_id ys"
  by (induction ys arbitrary: i) auto

lemma reindex_length [simp]: "length (reindex d i ys) = length ys"
  by (induction ys arbitrary: i) auto

lemma reindex_set_ids: "tile_id ` set (reindex d i ys) = tile_id ` set ys"
  using reindex_ids [of d i ys] by (metis set_map)

lemma place_reindex:
  assumes "distinct (map tile_id ys)" and "\<forall>y \<in> set ys. objs w (tile_id y) = Some y"
  shows "place d i (map tile_id ys) w
           = w\<lparr>objs := put (reindex d i ys) (objs w),
               hasMoved := (hasMoved w \<or> reindex d i ys \<noteq> ys)\<rparr>"
  using assms
proof (induction ys arbitrary: i w)
  case Nil
  show ?case by simp
next
  case (Cons y ys)
  have hy: "objs w (tile_id y) = Some y" and dy: "deref w (tile_id y) = y"
    using Cons.prems(2) by (auto simp: deref_def)
  define w1 where "w1 = (if along d y \<noteq> targetPos d i
         then w\<lparr>objs := (objs w)(tile_id y \<mapsto> setAlong d (targetPos d i) y), hasMoved := True\<rparr>
         else w)"
  have step: "place d i (map tile_id (y # ys)) w = place d (i + 1) (map tile_id ys) w1"
    using dy by (simp add: w1_def Let_def)
  have o1: "objs w1 = (objs w)(tile_id y \<mapsto> setAlong d (targetPos d i) y)"
    using hy by (auto simp: w1_def setAlong_same put_same)
  have m1: "hasMoved w1 = (hasMoved w \<or> setAlong d (targetPos d i) y \<noteq> y)"
    by (auto simp: w1_def setAlong_eq_iff)
  have r1: "w1\<lparr>objs := X, hasMoved := Y\<rparr> = w\<lparr>objs := X, hasMoved := Y\<rparr>" for X Y
    by (simp add: w1_def)
  have h1: "\<forall>z \<in> set ys. objs w1 (tile_id z) = Some z"
  proof
    fix z
    assume z: "z \<in> set ys"
    then have "tile_id z \<in> tile_id ` set ys" by (rule imageI)
    moreover have "tile_id y \<notin> tile_id ` set ys" using Cons.prems(1) by simp
    ultimately have "tile_id z \<noteq> tile_id y" by metis
    moreover have "objs w (tile_id z) = Some z" using z Cons.prems(2) by simp
    ultimately show "objs w1 (tile_id z) = Some z" by (simp add: o1)
  qed
  have d1: "distinct (map tile_id ys)" using Cons.prems(1) by simp
  show ?case
    unfolding step Cons.IH [OF d1 h1] o1 m1 r1
    by (simp add: put_Cons)
qed

lemma collapse_length_eq: "length (collapse xs) = length xs \<Longrightarrow> collapse xs = xs"
proof (induction xs rule: collapse.induct)
  case (1 x y zs)
  then show ?case using collapse_length [of zs] by (auto split: if_splits)
qed auto

lemma put_put_same_ids:
  assumes "distinct (map tile_id ys)" and "map tile_id zs = map tile_id ys"
  shows "put zs (put ys h) = put zs h"
proof (rule ext)
  fix k
  have dz: "distinct (map tile_id zs)" using assms by simp
  have ids: "tile_id ` set zs = tile_id ` set ys"
    using assms(2) by (metis set_map)
  show "put zs (put ys h) k = put zs h k"
  proof (cases "k \<in> tile_id ` set zs")
    case True
    then obtain z where "z \<in> set zs" "k = tile_id z" by auto
    then show ?thesis using put_in [OF dz] by simp
  next
    case False
    then show ?thesis using ids by (simp add: put_out)
  qed
qed

lemma processLine_result:
  assumes xs: "xs = lineTiles d ts r"
    and d: "distinct (map tile_id xs)"
    and h: "\<forall>x \<in> set xs. objs w (tile_id x) = Some x"
    and k: "\<forall>x \<in> set xs. tile_id x \<in> set (mapKeys w)"
    and v: "\<forall>x \<in> set xs. tile_value x \<noteq> 0"
  shows "processLine d ts w r = Inr (commit (lineResult d xs) xs (lineResult d xs \<noteq> xs) w)"
proof -
  define C where "C = collapse xs"
  define w' where "w' = commit C xs (length C \<noteq> length xs) w"
  have g: "getAll w xs = Some (map tile_id xs)"
    using k by (simp add: getAll_def)
  have wk: "walk (skipsZero d) (map tile_id xs) [] None w = (map tile_id C, w')"
    unfolding C_def w'_def by (rule walk_start [OF d h v])
  have dC: "distinct (map tile_id C)"
    unfolding C_def by (rule collapse_distinct [OF d])
  have hC: "\<forall>y \<in> set C. objs w' (tile_id y) = Some y"
    using put_in [OF dC] by (simp add: w'_def commit_def)
  have pl: "place d 0 (map tile_id C) w'
     = w'\<lparr>objs := put (reindex d 0 C) (objs w'), hasMoved := (hasMoved w' \<or> reindex d 0 C \<noteq> C)\<rparr>"
    by (rule place_reindex [OF dC hC])
  have o: "put (reindex d 0 C) (objs w') = put (reindex d 0 C) (objs w)"
    using put_put_same_ids [OF dC, of "reindex d 0 C" "objs w"] by (simp add: w'_def commit_def)
  have ch: "(length C \<noteq> length xs \<or> reindex d 0 C \<noteq> C) = (reindex d 0 C \<noteq> xs)"
  proof (cases "length C = length xs")
    case True
    then have "C = xs" unfolding C_def by (rule collapse_length_eq)
    then show ?thesis by simp
  next
    case False
    then have "reindex d 0 C \<noteq> xs" by (metis reindex_length)
    then show ?thesis using False by simp
  qed
  have "place d 0 (map tile_id C) w' = commit (reindex d 0 C) xs (reindex d 0 C \<noteq> xs) w"
    unfolding pl o using ch by (simp add: w'_def commit_def reindex_set_ids)
  then show ?thesis
    using g wk by (simp add: processLine_def xs [symmetric] lineTiles_def [symmetric] lineResult_def C_def)
qed

section \<open>The outer loop and the result of a move\<close>

lemma put_append: "put (ys @ zs) h = put zs (put ys h)"
  by (simp add: put_def)

lemma lineTiles_set: "set (lineTiles d ts r) = {t \<in> set ts. lineOf d t = int r}"
  by (auto simp: lineTiles_def)

lemma lineTiles_distinct: "distinct (map tile_id ts) \<Longrightarrow> distinct (map tile_id (lineTiles d ts r))"
  unfolding lineTiles_def
  by (metis distinct_map_filter distinct_map distinct_sort set_sort inj_on_subset subset_refl)

lemma lineResult_ids_subset: "tile_id ` set (lineResult d xs) \<subseteq> tile_id ` set xs"
  unfolding lineResult_def reindex_set_ids by (rule collapse_ids_subset)

lemma lineResult_distinct: "distinct (map tile_id xs) \<Longrightarrow> distinct (map tile_id (lineResult d xs))"
  unfolding lineResult_def by (simp add: collapse_distinct)

lemma ids_other_line:
  assumes "distinct (map tile_id ts)" "x \<in> set (lineTiles d ts r)" "r' \<noteq> r"
  shows "tile_id x \<notin> tile_id ` set (lineTiles d ts r')"
proof
  assume "tile_id x \<in> tile_id ` set (lineTiles d ts r')"
  then obtain y where y: "y \<in> set (lineTiles d ts r')" "tile_id y = tile_id x" by auto
  have "inj_on tile_id (set ts)" using assms(1) by (simp add: distinct_map)
  moreover have "x \<in> set ts" "y \<in> set ts" using assms(2) y(1) by (auto simp: lineTiles_set)
  ultimately have "x = y" using y(2) by (metis inj_onD)
  then show False using assms(2,3) y(1) by (auto simp: lineTiles_set)
qed

lemma forLines_result:
  assumes "distinct (map tile_id ts)" and "\<forall>t \<in> set ts. tile_value t \<noteq> 0"
    and "distinct rs"
    and "\<forall>r \<in> set rs. \<forall>x \<in> set (lineTiles d ts r).
           objs w (tile_id x) = Some x \<and> tile_id x \<in> set (mapKeys w)"
  shows "forLines d ts rs w = Inr
     (w\<lparr>objs := put (concat (map (\<lambda>r. lineResult d (lineTiles d ts r)) rs)) (objs w),
        mapKeys := filter (\<lambda>k. \<forall>r \<in> set rs. k \<notin> tile_id ` set (lineTiles d ts r)
                                  \<or> k \<in> tile_id ` set (lineResult d (lineTiles d ts r))) (mapKeys w),
        score := score w + (\<Sum>r\<leftarrow>rs. gain (lineTiles d ts r)),
        hasMoved := (hasMoved w \<or> (\<exists>r \<in> set rs. lineResult d (lineTiles d ts r) \<noteq> lineTiles d ts r))\<rparr>)"
  using assms(3,4)
proof (induction rs arbitrary: w)
  case Nil
  show ?case by simp
next
  case (Cons r rs)
  define X where "X = lineTiles d ts r"
  define F where "F = lineResult d X"
  define w1 where "w1 = commit F X (F \<noteq> X) w"
  have dX: "distinct (map tile_id X)"
    unfolding X_def by (rule lineTiles_distinct [OF assms(1)])
  have hX: "\<forall>x \<in> set X. objs w (tile_id x) = Some x" and kX: "\<forall>x \<in> set X. tile_id x \<in> set (mapKeys w)"
    using Cons.prems(2) by (auto simp: X_def)
  have vX: "\<forall>x \<in> set X. tile_value x \<noteq> 0"
    using assms(2) by (auto simp: X_def lineTiles_set)
  have p: "processLine d ts w r = Inr w1"
    unfolding w1_def F_def by (rule processLine_result [OF X_def dX hX kX vX])
  have h1: "\<forall>r' \<in> set rs. \<forall>x \<in> set (lineTiles d ts r').
           objs w1 (tile_id x) = Some x \<and> tile_id x \<in> set (mapKeys w1)"
  proof (intro ballI)
    fix r' x
    assume r': "r' \<in> set rs" and x: "x \<in> set (lineTiles d ts r')"
    have "r \<noteq> r'" using r' Cons.prems(1) by auto
    from ids_other_line [OF assms(1) x this] have nX: "tile_id x \<notin> tile_id ` set X"
      by (simp add: X_def)
    then have nF: "tile_id x \<notin> tile_id ` set F"
      using lineResult_ids_subset [of d X] by (auto simp: F_def)
    have old: "objs w (tile_id x) = Some x" "tile_id x \<in> set (mapKeys w)"
      using Cons.prems(2) r' x by auto
    show "objs w1 (tile_id x) = Some x \<and> tile_id x \<in> set (mapKeys w1)"
      using nX nF old by (simp add: w1_def commit_def put_out)
  qed
  have drs: "distinct rs" using Cons.prems(1) by simp
  have "forLines d ts (r # rs) w = forLines d ts rs w1"
    using p by simp
  also note Cons.IH [OF drs h1]
  finally show ?case
    by (simp add: w1_def commit_def put_append F_def X_def conj_commute add.assoc cong: conj_cong)
qed

lemma copyTiles_keys_aux:
  "distinct (map tile_id ts) \<Longrightarrow> set ks \<inter> tile_id ` set ts = {} \<Longrightarrow>
   fold (\<lambda>t ks. if tile_id t \<in> set ks then ks else ks @ [tile_id t]) ts ks = ks @ map tile_id ts"
proof (induction ts arbitrary: ks)
  case Nil
  show ?case by simp
next
  case (Cons t ts)
  have "tile_id t \<notin> set ks" using Cons.prems(2) by auto
  moreover have "set (ks @ [tile_id t]) \<inter> tile_id ` set ts = {}"
    using Cons.prems by auto
  moreover have "distinct (map tile_id ts)" using Cons.prems(1) by simp
  ultimately show ?case using Cons.IH [of "ks @ [tile_id t]"] by simp
qed

lemma copyTiles_wf:
  assumes "distinct (map tile_id ts)"
  shows "mapKeys (copyTiles ts) = map tile_id ts" and "objs (copyTiles ts) = put ts Map.empty"
    and "score (copyTiles ts) = 0" and "hasMoved (copyTiles ts) = False"
  using copyTiles_keys_aux [OF assms, of "[]"] by (simp_all add: copyTiles_def put_def)

lemma finalTiles_distinct_aux:
  assumes "distinct (map tile_id ts)"
  shows "distinct rs \<Longrightarrow>
    distinct (map tile_id (concat (map (\<lambda>r. lineResult d (lineTiles d ts r)) rs)))"
proof (induction rs)
  case Nil
  show ?case by simp
next
  case (Cons r rs)
  define A where "A = map tile_id (lineResult d (lineTiles d ts r))"
  define B where "B = map tile_id (concat (map (\<lambda>r. lineResult d (lineTiles d ts r)) rs))"
  have a: "distinct A"
    unfolding A_def by (intro lineResult_distinct lineTiles_distinct assms)
  have b: "distinct B"
    unfolding B_def using Cons by simp
  have c: "set A \<inter> set B = {}"
  proof (rule ccontr)
    assume "set A \<inter> set B \<noteq> {}"
    then obtain k where k: "k \<in> set A" "k \<in> set B"
      by blast
    from k(2) obtain r' where r': "r' \<in> set rs" "k \<in> tile_id ` set (lineResult d (lineTiles d ts r'))"
      unfolding B_def by auto
    have "k \<in> tile_id ` set (lineResult d (lineTiles d ts r))"
      using k(1) unfolding A_def by simp
    then have "k \<in> tile_id ` set (lineTiles d ts r)"
      using lineResult_ids_subset [of d "lineTiles d ts r"] by (rule rev_subsetD)
    then obtain x where x: "x \<in> set (lineTiles d ts r)" "k = tile_id x"
      by (rule imageE)
    have "r' \<noteq> r" using r'(1) Cons.prems by auto
    from ids_other_line [OF assms x(1) this]
    have "k \<notin> tile_id ` set (lineTiles d ts r')" unfolding x(2) .
    moreover have "k \<in> tile_id ` set (lineTiles d ts r')"
      using r'(2) lineResult_ids_subset [of d "lineTiles d ts r'"] by (rule rev_subsetD)
    ultimately show False by (rule notE)
  qed
  have "map tile_id (concat (map (\<lambda>r. lineResult d (lineTiles d ts r)) (r # rs))) = A @ B"
    by (simp add: A_def B_def)
  then show ?case using a b c by (simp only: distinct_append simp_thms)
qed

lemma finalTiles_distinct: "distinct (map tile_id ts) \<Longrightarrow> distinct (map tile_id (finalTiles d ts))"
  unfolding finalTiles_def by (rule finalTiles_distinct_aux) simp_all

lemma finalTiles_ids_line:
  "k \<in> tile_id ` set (finalTiles d ts) \<longleftrightarrow>
     (\<exists>r<4. k \<in> tile_id ` set (lineResult d (lineTiles d ts r)))"
proof -
  have "set (finalTiles d ts) = (\<Union>r \<in> {r. r < 4}. set (lineResult d (lineTiles d ts r)))"
    by (auto simp: finalTiles_def GRID_SIZE_def)
  then show ?thesis by blast
qed

lemma finalTiles_ids_subset: "tile_id ` set (finalTiles d ts) \<subseteq> tile_id ` set ts"
proof
  fix k
  assume "k \<in> tile_id ` set (finalTiles d ts)"
  then obtain r where "k \<in> tile_id ` set (lineResult d (lineTiles d ts r))"
    unfolding finalTiles_ids_line by blast
  with lineResult_ids_subset have "k \<in> tile_id ` set (lineTiles d ts r)" by blast
  then show "k \<in> tile_id ` set ts" by (auto simp: lineTiles_set)
qed

lemma powerOfTwo_pos: "powerOfTwo v \<Longrightarrow> 0 < v"
  by (auto simp: powerOfTwo_def)

lemma inRange_line: "inRange GRID_SIZE t \<Longrightarrow> \<exists>r<4. lineOf d t = int r"
proof -
  assume "inRange GRID_SIZE t"
  then have "0 \<le> lineOf d t \<and> lineOf d t < 4"
    by (cases d) (simp_all add: inRange_def GRID_SIZE_def)
  then have "nat (lineOf d t) < 4" and "lineOf d t = int (nat (lineOf d t))"
    by linarith+
  then show ?thesis by blast
qed


lemma move_result:
  assumes wf: "regular ts"
  shows "\<exists>res. move d ts = Inr res
     \<and> mset (updatedTiles res) = mset (finalTiles d ts)
     \<and> scoreIncrease res = (\<Sum>r\<leftarrow>[0..<4]. gain (lineTiles d ts r))
     \<and> (moved res \<longleftrightarrow> (\<exists>r<4. lineResult d (lineTiles d ts r) \<noteq> lineTiles d ts r))
     \<and> (\<not> moved res \<longrightarrow> updatedTiles res = ts)"
proof -
  have dts: "distinct (map tile_id ts)" using wf by (simp add: regular_def well_formed_def)
  have vts: "\<forall>t \<in> set ts. tile_value t \<noteq> 0"
    using wf powerOfTwo_pos by (fastforce simp: regular_def well_formed_def)
  define w0 where "w0 = copyTiles ts"
  define F where "F = finalTiles d ts"
  define h0 where "h0 = put ts (Map.empty :: int \<rightharpoonup> (int, 'a) TileData)"
  define surv where "surv k \<longleftrightarrow> (\<forall>r \<in> set [0..<GRID_SIZE]. k \<notin> tile_id ` set (lineTiles d ts r)
                                  \<or> k \<in> tile_id ` set (lineResult d (lineTiles d ts r)))" for k
  define mv where "mv \<longleftrightarrow> (\<exists>r \<in> set [0..<GRID_SIZE]. lineResult d (lineTiles d ts r) \<noteq> lineTiles d ts r)"
  have mv_iff: "mv \<longleftrightarrow> (\<exists>r<4. lineResult d (lineTiles d ts r) \<noteq> lineTiles d ts r)"
    unfolding mv_def by (auto simp: GRID_SIZE_def)
  define g where "g k = the (put F h0 k)" for k
  note c0 = copyTiles_wf [OF dts, folded w0_def]
  have h: "\<forall>r \<in> set [0..<GRID_SIZE]. \<forall>x \<in> set (lineTiles d ts r).
           objs w0 (tile_id x) = Some x \<and> tile_id x \<in> set (mapKeys w0)"
    using put_in [OF dts] by (auto simp: c0 lineTiles_set)
  have "distinct [0..<GRID_SIZE]" by simp
  from forLines_result [OF dts vts this h]
  have fl: "forLines d ts [0..<GRID_SIZE] w0 = Inr
     (w0\<lparr>objs := put F h0, mapKeys := filter surv (map tile_id ts),
        score := (\<Sum>r\<leftarrow>[0..<4]. gain (lineTiles d ts r)), hasMoved := mv\<rparr>)"
    unfolding F_def finalTiles_def h0_def surv_def mv_def
    by (simp add: c0 GRID_SIZE_def)
  define out where "out = map g (filter surv (map tile_id ts))"
  define wf where "wf = w0\<lparr>objs := put F h0, mapKeys := filter surv (map tile_id ts),
        score := (\<Sum>r\<leftarrow>[0..<4]. gain (lineTiles d ts r)), hasMoved := mv\<rparr>"
  have des: "deref wf = g"
    by (rule ext) (simp add: deref_def g_def wf_def)
  have sel: "mapKeys wf = filter surv (map tile_id ts)" "hasMoved wf = mv"
    "score wf = (\<Sum>r\<leftarrow>[0..<4]. gain (lineTiles d ts r))"
    by (simp_all add: wf_def)
  have mv_eq: "move d ts = Inr \<lparr>updatedTiles = out,
       scoreIncrease = (\<Sum>r\<leftarrow>[0..<4]. gain (lineTiles d ts r)), moved = mv\<rparr>"
    unfolding move_def w0_def [symmetric] fl wf_def [symmetric]
    by (simp add: des sel out_def)
  have dF: "distinct (map tile_id F)" unfolding F_def by (rule finalTiles_distinct [OF dts])
  have gF: "g (tile_id f) = f" if "f \<in> set F" for f
    using put_in [OF dF that] by (simp add: g_def)
  have surv_iff: "surv (tile_id t) \<longleftrightarrow> tile_id t \<in> tile_id ` set F" if t: "t \<in> set ts" for t
  proof -
    from t wf have "inRange GRID_SIZE t" by (simp add: regular_def well_formed_def)
    from inRange_line [OF this, of d] obtain rt where rt: "rt < 4" "lineOf d t = int rt" by blast
    have tin: "t \<in> set (lineTiles d ts rt)" using t rt by (simp add: lineTiles_set)
    have other: "tile_id t \<notin> tile_id ` set (lineTiles d ts r)" if "r \<noteq> rt" for r
      using ids_other_line [OF dts tin that] .
    have other': "tile_id t \<notin> tile_id ` set (lineResult d (lineTiles d ts r))" if "r \<noteq> rt" for r
      using other [OF that] lineResult_ids_subset by blast
    have "surv (tile_id t) \<longleftrightarrow> tile_id t \<in> tile_id ` set (lineResult d (lineTiles d ts rt))"
    proof
      assume "surv (tile_id t)"
      then have "tile_id t \<notin> tile_id ` set (lineTiles d ts rt)
          \<or> tile_id t \<in> tile_id ` set (lineResult d (lineTiles d ts rt))"
        unfolding surv_def using rt(1) by (simp add: GRID_SIZE_def)
      then show "tile_id t \<in> tile_id ` set (lineResult d (lineTiles d ts rt))"
        using tin by blast
    next
      assume a: "tile_id t \<in> tile_id ` set (lineResult d (lineTiles d ts rt))"
      show "surv (tile_id t)"
        unfolding surv_def
      proof
        fix r
        show "tile_id t \<notin> tile_id ` set (lineTiles d ts r)
          \<or> tile_id t \<in> tile_id ` set (lineResult d (lineTiles d ts r))"
          using a other [of r] by (cases "r = rt") simp_all
      qed
    qed
    also have "\<dots> \<longleftrightarrow> tile_id t \<in> tile_id ` set F"
      unfolding F_def finalTiles_ids_line using other' rt(1) by metis
    finally show ?thesis .
  qed
  have K: "filter surv (map tile_id ts) = filter (\<lambda>k. k \<in> tile_id ` set F) (map tile_id ts)"
  proof (rule filter_cong [OF refl])
    fix k
    assume "k \<in> set (map tile_id ts)"
    then obtain t where "t \<in> set ts" "k = tile_id t" by auto
    then show "surv k = (k \<in> tile_id ` set F)" using surv_iff by simp
  qed
  have "set (filter surv (map tile_id ts)) = set (map tile_id F)"
    unfolding K using finalTiles_ids_subset [of d ts] by (auto simp: F_def)
  moreover have "distinct (filter surv (map tile_id ts))" using dts by simp
  ultimately have "mset (filter surv (map tile_id ts)) = mset (map tile_id F)"
    using dF set_eq_iff_mset_eq_distinct by blast
  then have "image_mset g (mset (filter surv (map tile_id ts))) = image_mset g (mset (map tile_id F))"
    by (rule arg_cong)
  then have "mset out = mset (map g (map tile_id F))"
    by (simp only: out_def mset_map)
  also have "map g (map tile_id F) = F"
    using gF by (simp add: map_idI)
  finally have r2: "mset out = mset F" .
  have r5: "out = ts" if "\<not> mv"
  proof -
    have same: "lineResult d (lineTiles d ts r) = lineTiles d ts r" if "r < 4" for r
      using \<open>\<not> mv\<close> that by (auto simp: mv_iff)
    have "surv k" for k unfolding surv_def using same by (auto simp: GRID_SIZE_def)
    then have k: "filter surv (map tile_id ts) = map tile_id ts" by simp
    have "g (tile_id t) = t" if t: "t \<in> set ts" for t
    proof (cases "tile_id t \<in> tile_id ` set F")
      case True
      then obtain r x where rx: "r < 4" "x \<in> set (lineResult d (lineTiles d ts r))" "tile_id x = tile_id t"
        unfolding F_def finalTiles_def by (auto simp: GRID_SIZE_def)
      have "x \<in> set (lineTiles d ts r)" using rx(2) same [OF rx(1)] by simp
      then have xin: "x \<in> set ts" by (simp add: lineTiles_set)
      have inj: "inj_on tile_id (set ts)" using dts by (simp add: distinct_map)
      have xt: "x = t" by (rule inj_onD [OF inj rx(3) xin t])
      have "x \<in> set F" using rx(1,2) unfolding F_def finalTiles_def by (auto simp: GRID_SIZE_def)
      then have "g (tile_id x) = x" by (rule gF)
      then show ?thesis unfolding xt .
    next
      case False
      then show ?thesis using put_in [OF dts t] by (simp add: g_def put_out h0_def)
    qed
    then show ?thesis unfolding out_def k by (simp add: map_idI)
  qed
  define R where "R = \<lparr>updatedTiles = out,
       scoreIncrease = (\<Sum>r\<leftarrow>[0..<4]. gain (lineTiles d ts r)), moved = mv\<rparr>"
  have R: "updatedTiles R = out" "scoreIncrease R = (\<Sum>r\<leftarrow>[0..<4]. gain (lineTiles d ts r))"
    "moved R = mv"
    by (simp_all add: R_def)
  show ?thesis
  proof (intro exI [of _ R] conjI impI)
    show "move d ts = Inr R" unfolding R_def by (rule mv_eq)
    show "mset (updatedTiles R) = mset (finalTiles d ts)" unfolding R(1) F_def [symmetric] by (rule r2)
    show "scoreIncrease R = (\<Sum>r\<leftarrow>[0..<4]. gain (lineTiles d ts r))" by (rule R(2))
    show "moved R = (\<exists>r<4. lineResult d (lineTiles d ts r) \<noteq> lineTiles d ts r)"
      unfolding R(3) by (rule mv_iff)
    show "updatedTiles R = ts" if "\<not> moved R"
      using that r5 unfolding R by simp
  qed
qed


section \<open>Lines and boards\<close>

lemma powerOfTwo_iff: "powerOfTwo v \<longleftrightarrow> (\<exists>k::nat. v = 2 ^ k)"
proof
  assume "powerOfTwo v"
  then show "\<exists>k::nat. v = 2 ^ k" by (auto simp: powerOfTwo_def)
next
  assume "\<exists>k::nat. v = 2 ^ k"
  then obtain k :: nat where k: "v = 2 ^ k" by blast
  have "k < (2::nat) ^ k" by (rule less_exp)
  also have "(2::nat) ^ k = nat v" unfolding k by (simp add: nat_power_eq)
  finally have "k < nat v" .
  then show "powerOfTwo v" using k by (auto simp: powerOfTwo_def)
qed

lemma powerOfTwo_double: "powerOfTwo v \<Longrightarrow> powerOfTwo (2 * v)"
proof -
  assume "powerOfTwo v"
  then obtain k :: nat where "v = 2 ^ k" unfolding powerOfTwo_iff by blast
  then have "2 * v = 2 ^ Suc k" by simp
  then show ?thesis unfolding powerOfTwo_iff by blast
qed

lemma collapse_sum: "sum_list (map tile_value (collapse xs)) = sum_list (map tile_value xs)"
  by (induction xs rule: collapse.induct) auto

lemma reindex_values [simp]: "map tile_value (reindex d i ys) = map tile_value ys"
  by (induction ys arbitrary: i) auto

lemma lineResult_sum: "sum_list (map tile_value (lineResult d xs)) = sum_list (map tile_value xs)"
  by (simp add: lineResult_def collapse_sum)

lemma upt4: "[0..<4] = [0, 1, 2, 3::nat]"
  by (simp add: upt_rec)

lemma less4_cases: "r < 4 \<Longrightarrow> r = 0 \<or> r = 1 \<or> r = 2 \<or> r = (3::nat)"
  by linarith

lemma lineTiles_mset: "mset (lineTiles d ts r) = filter_mset (\<lambda>t. lineOf d t = int r) (mset ts)"
  by (simp add: lineTiles_def)

lemma partition_lines:
  assumes "\<forall>t \<in> set ts. \<exists>r<4. lineOf d t = int r"
  shows "mset ts = mset (concat (map (lineTiles d ts) [0..<4]))"
  using assms
proof (induction ts)
  case Nil
  show ?case by (simp add: lineTiles_def upt4)
next
  case (Cons t ts)
  then have IH: "mset ts = mset (concat (map (lineTiles d ts) [0..<4]))" by simp
  from Cons.prems obtain r where r: "r < 4" "lineOf d t = int r" by auto
  have m: "mset (lineTiles d (t # ts) r') = (if r' = r then {#t#} else {#}) + mset (lineTiles d ts r')" for r'
    using r(2) by (simp add: lineTiles_mset)
  have "mset (concat (map (lineTiles d (t # ts)) [0..<4])) = {#t#} + mset (concat (map (lineTiles d ts) [0..<4]))"
    using less4_cases [OF r(1)] by (elim disjE) (simp_all add: upt4 m)
  then show ?case using IH by simp
qed

lemma regular_lines: "regular ts \<Longrightarrow> \<forall>t \<in> set ts. \<exists>r<4. lineOf d t = int r"
  using inRange_line by (auto simp: regular_def well_formed_def)

lemma finalTiles_sum: "sum_list (map tile_value (finalTiles d ts))
   = sum_list (map tile_value (concat (map (lineTiles d ts) [0..<4])))"
  by (simp add: finalTiles_def GRID_SIZE_def upt4 lineResult_sum)

lemma sum_list_mset_cong:
  assumes "mset xs = mset ys"
  shows "sum_list (map f xs) = (sum_list (map f ys) :: int)"
proof -
  have "sum_list (map f xs) = sum_mset (image_mset f (mset xs))"
    by (simp add: sum_mset_sum_list [symmetric])
  also have "\<dots> = sum_mset (image_mset f (mset ys))"
    by (simp only: assms)
  also have "\<dots> = sum_list (map f ys)"
    by (simp add: sum_mset_sum_list [symmetric])
  finally show ?thesis .
qed

lemma move_sum:
  assumes "regular ts" "move d ts = Inr res"
  shows "sum_list (map tile_value (updatedTiles res)) = sum_list (map tile_value ts)"
proof -
  from move_result [OF assms(1), of d] obtain res' where
    "move d ts = Inr res'" "mset (updatedTiles res') = mset (finalTiles d ts)" by blast
  then have m: "mset (updatedTiles res) = mset (finalTiles d ts)" using assms(2) by simp
  have "sum_list (map tile_value (updatedTiles res)) = sum_list (map tile_value (finalTiles d ts))"
    by (rule sum_list_mset_cong [OF m])
  also have "\<dots> = sum_list (map tile_value (concat (map (lineTiles d ts) [0..<4])))"
    by (rule finalTiles_sum)
  also have "\<dots> = sum_list (map tile_value ts)"
    by (rule sum_list_mset_cong [OF partition_lines [OF regular_lines [OF assms(1)], symmetric]])
  finally show ?thesis .
qed

lemma collapse_elems:
  "y \<in> set (collapse xs) \<Longrightarrow>
     \<exists>x \<in> set xs. y = x \<or> y = x\<lparr>tile_value := tile_value x * 2, merged := Some True\<rparr>"
proof (induction xs rule: collapse.induct)
  case (1 x0 y0 zs)
  show ?case
  proof (cases "tile_value x0 = tile_value y0")
    case True
    with 1 show ?thesis by auto
  next
    case False
    with 1 show ?thesis by auto
  qed
qed auto

lemma reindex_elems: "z \<in> set (reindex d i ys) \<Longrightarrow> \<exists>y \<in> set ys. \<exists>p. z = setAlong d p y"
  by (induction ys arbitrary: i) auto

lemma lineResult_elems:
  assumes "z \<in> set (lineResult d xs)"
  shows "\<exists>x \<in> set xs. \<exists>p. z = setAlong d p x
            \<or> z = setAlong d p (x\<lparr>tile_value := tile_value x * 2, merged := Some True\<rparr>)"
proof -
  from assms reindex_elems obtain y p where y: "y \<in> set (collapse xs)" "z = setAlong d p y"
    unfolding lineResult_def by blast
  from collapse_elems [OF y(1)] obtain x where
    x: "x \<in> set xs" "y = x \<or> y = x\<lparr>tile_value := tile_value x * 2, merged := Some True\<rparr>"
    by blast
  show ?thesis
  proof (rule bexI [OF _ x(1)], rule exI [of _ p])
    show "z = setAlong d p x \<or> z = setAlong d p (x\<lparr>tile_value := tile_value x * 2, merged := Some True\<rparr>)"
      using x(2) y(2) by blast
  qed
qed

lemma finalTiles_set: "set (finalTiles d ts) = (\<Union>r \<in> {r. r < 4}. set (lineResult d (lineTiles d ts r)))"
  by (auto simp: finalTiles_def GRID_SIZE_def)

lemma move_elems:
  assumes "regular ts" "move d ts = Inr res" "t' \<in> set (updatedTiles res)"
  shows "\<exists>t \<in> set ts. \<exists>p. t' = setAlong d p t
            \<or> t' = setAlong d p (t\<lparr>tile_value := tile_value t * 2, merged := Some True\<rparr>)"
proof -
  from move_result [OF assms(1), of d] obtain res' where
    "move d ts = Inr res'" "mset (updatedTiles res') = mset (finalTiles d ts)" by blast
  then have "mset (updatedTiles res) = mset (finalTiles d ts)" using assms(2) by simp
  then have "set (updatedTiles res) = set (finalTiles d ts)" by (rule mset_eq_setD)
  then have "t' \<in> set (finalTiles d ts)" using assms(3) by simp
  then obtain r where "t' \<in> set (lineResult d (lineTiles d ts r))"
    unfolding finalTiles_set by blast
  from lineResult_elems [OF this] obtain x p where
    x: "x \<in> set (lineTiles d ts r)" "t' = setAlong d p x
            \<or> t' = setAlong d p (x\<lparr>tile_value := tile_value x * 2, merged := Some True\<rparr>)"
    by blast
  have "x \<in> set ts" using x(1) by (simp add: lineTiles_set)
  then show ?thesis using x(2) by blast
qed

lemma same_id_same_tile:
  "distinct (map tile_id xs) \<Longrightarrow> a \<in> set xs \<Longrightarrow> b \<in> set xs \<Longrightarrow> tile_id a = tile_id b \<Longrightarrow> a = b"
  by (meson distinct_map inj_onD)

lemma distinct_ids_notin:
  "distinct (map tile_id (a # xs)) \<Longrightarrow> b \<in> set xs \<Longrightarrow> tile_id b \<noteq> tile_id a"
  by (metis distinct.simps(2) image_eqI list.simps(9) set_map)

lemma doubled_cong:
  assumes "tile_id z \<notin> tile_id ` set as"
  shows "doubled (as @ bs) z = doubled bs z"
proof -
  have "\<not> (\<exists>t \<in> set as. tile_id t = tile_id z \<and> tile_value z = 2 * tile_value t)"
    using assms by (metis imageI)
  then show ?thesis unfolding doubled_def by auto
qed

lemma collapse_count:
  assumes "distinct (map tile_id xs)" "\<forall>x \<in> set xs. tile_value x \<noteq> 0"
  shows "length xs = length (collapse xs) + length (filter (doubled xs) (collapse xs))"
  using assms
proof (induction xs rule: collapse.induct)
  case (1 x0 y0 zs)
  have v: "tile_value x0 \<noteq> 0" using "1.prems"(2) by simp
  show ?case
  proof (cases "tile_value x0 = tile_value y0")
    case True
    have dz: "distinct (map tile_id zs)" "\<forall>x \<in> set zs. tile_value x \<noteq> 0"
      using "1.prems" by simp_all
    have IH: "length zs = length (collapse zs) + length (filter (doubled zs) (collapse zs))"
      by (rule "1.IH"(1) [OF True dz])
    have same: "filter (doubled (x0 # y0 # zs)) (collapse zs) = filter (doubled zs) (collapse zs)"
    proof (rule filter_cong [OF refl])
      fix z
      assume "z \<in> set (collapse zs)"
      then have "tile_id z \<in> tile_id ` set zs" using collapse_ids_subset [of zs] by blast
      then obtain b where b: "b \<in> set zs" "tile_id z = tile_id b" by blast
      have "distinct (map tile_id (y0 # zs))" using "1.prems"(1) by simp
      from distinct_ids_notin [OF this b(1)] distinct_ids_notin [OF "1.prems"(1), of b] b
      have "tile_id z \<noteq> tile_id x0" "tile_id z \<noteq> tile_id y0" by simp_all
      then have "tile_id z \<notin> tile_id ` set [x0, y0]" by simp
      from doubled_cong [OF this, of zs] show "doubled (x0 # y0 # zs) z = doubled zs z" by simp
    qed
    have "doubled (x0 # y0 # zs) (x0\<lparr>tile_value := tile_value y0 * 2, merged := Some True\<rparr>)"
      using True by (auto simp: doubled_def)
    then show ?thesis using True IH same by simp
  next
    case False
    have dz: "distinct (map tile_id (y0 # zs))" "\<forall>x \<in> set (y0 # zs). tile_value x \<noteq> 0"
      using "1.prems" by simp_all
    have IH: "length (y0 # zs) = length (collapse (y0 # zs)) + length (filter (doubled (y0 # zs)) (collapse (y0 # zs)))"
      by (rule "1.IH"(2) [OF False dz])
    have same: "filter (doubled (x0 # y0 # zs)) (collapse (y0 # zs)) = filter (doubled (y0 # zs)) (collapse (y0 # zs))"
    proof (rule filter_cong [OF refl])
      fix z
      assume "z \<in> set (collapse (y0 # zs))"
      then have "tile_id z \<in> tile_id ` set (y0 # zs)" using collapse_ids_subset [of "y0 # zs"] by blast
      then obtain b where b: "b \<in> set (y0 # zs)" "tile_id z = tile_id b" by blast
      from distinct_ids_notin [OF "1.prems"(1) b(1)] b(2)
      have "tile_id z \<noteq> tile_id x0" by simp
      then have "tile_id z \<notin> tile_id ` set [x0]" by simp
      from doubled_cong [OF this, of "y0 # zs"] show "doubled (x0 # y0 # zs) z = doubled (y0 # zs) z" by simp
    qed
    have uniq: "t = x0" if "tile_id t = tile_id x0" "t \<in> set (x0 # y0 # zs)" for t
      by (rule same_id_same_tile [OF "1.prems"(1) that(2) _ that(1)]) simp
    have "\<not> doubled (x0 # y0 # zs) x0"
    proof
      assume "doubled (x0 # y0 # zs) x0"
      then obtain t where t: "t \<in> set (x0 # y0 # zs)" "tile_id t = tile_id x0"
        "tile_value x0 = 2 * tile_value t"
        unfolding doubled_def by blast
      from uniq [OF t(2) t(1)] t(3) have "tile_value x0 = 2 * tile_value x0" by simp
      then show False using v by simp
    qed
    then show ?thesis using False IH same by simp
  qed
qed (auto simp: doubled_def)

lemma doubled_setAlong [simp]: "doubled xs (setAlong d p y) = doubled xs y"
  by (simp add: doubled_def)

lemma reindex_filter_doubled:
  "length (filter (doubled xs) (reindex d i ys)) = length (filter (doubled xs) ys)"
  by (induction ys arbitrary: i) simp_all

lemma lineResult_count:
  assumes "distinct (map tile_id xs)" "\<forall>x \<in> set xs. tile_value x \<noteq> 0"
  shows "length xs = length (lineResult d xs) + length (filter (doubled xs) (lineResult d xs))"
  using collapse_count [OF assms] by (simp add: lineResult_def reindex_filter_doubled)

lemma doubled_line:
  assumes "distinct (map tile_id ts)" "z \<in> set (lineResult d (lineTiles d ts r))"
  shows "doubled ts z = doubled (lineTiles d ts r) z"
proof
  assume "doubled ts z"
  then obtain t where t: "t \<in> set ts" "tile_id t = tile_id z" "tile_value z = 2 * tile_value t"
    unfolding doubled_def by blast
  have "tile_id z \<in> tile_id ` set (lineTiles d ts r)"
    using assms(2) lineResult_ids_subset [of d "lineTiles d ts r"] by blast
  then obtain x where x: "x \<in> set (lineTiles d ts r)" "tile_id z = tile_id x" by blast
  have "x \<in> set ts" using x(1) by (simp add: lineTiles_set)
  from same_id_same_tile [OF assms(1) t(1) this] t(2) x(2) have "t = x" by simp
  then show "doubled (lineTiles d ts r) z"
    unfolding doubled_def using x(1) t(2,3) by blast
next
  assume "doubled (lineTiles d ts r) z"
  then show "doubled ts z"
    unfolding doubled_def by (auto simp: lineTiles_set)
qed

lemma filter_length_mset_cong:
  assumes "mset xs = mset ys"
  shows "length (filter P xs) = length (filter P ys)"
proof -
  have "mset (filter P xs) = mset (filter P ys)"
    using assms by (simp only: mset_filter)
  then show ?thesis by (rule mset_eq_length)
qed

lemma move_count:
  assumes wf: "regular ts" and mv: "move d ts = Inr res"
  shows "length ts = length (updatedTiles res) + length (filter (doubled ts) (updatedTiles res))"
proof -
  have dts: "distinct (map tile_id ts)" using wf by (simp add: regular_def well_formed_def)
  have vts: "\<forall>t \<in> set ts. tile_value t \<noteq> 0"
    using wf powerOfTwo_pos by (fastforce simp: regular_def well_formed_def)
  define X where "X = lineTiles d ts"
  define F where "F r = lineResult d (X r)" for r
  from move_result [OF wf, of d] obtain res' where
    "move d ts = Inr res'" "mset (updatedTiles res') = mset (finalTiles d ts)" by blast
  then have m: "mset (updatedTiles res) = mset (finalTiles d ts)" using mv by simp
  have fin: "finalTiles d ts = F 0 @ F 1 @ F 2 @ F 3"
    by (simp add: finalTiles_def GRID_SIZE_def upt4 F_def X_def)
  have part: "mset ts = mset (X 0 @ X 1 @ X 2 @ X 3)"
    using partition_lines [OF regular_lines [OF wf], of d] by (simp add: upt4 X_def)
  have line: "length (X r) = length (F r) + length (filter (doubled ts) (F r))" for r
  proof -
    have "distinct (map tile_id (X r))" unfolding X_def by (rule lineTiles_distinct [OF dts])
    moreover have "\<forall>x \<in> set (X r). tile_value x \<noteq> 0" using vts by (simp add: X_def lineTiles_set)
    ultimately have "length (X r) = length (F r) + length (filter (doubled (X r)) (F r))"
      unfolding F_def by (rule lineResult_count)
    moreover have "filter (doubled (X r)) (F r) = filter (doubled ts) (F r)"
      by (rule filter_cong [OF refl]) (simp add: F_def X_def doubled_line [OF dts])
    ultimately show ?thesis by simp
  qed
  have "length ts = length (X 0 @ X 1 @ X 2 @ X 3)"
    by (rule mset_eq_length [OF part])
  also have "\<dots> = length (F 0 @ F 1 @ F 2 @ F 3) + length (filter (doubled ts) (F 0 @ F 1 @ F 2 @ F 3))"
    using line [of 0] line [of 1] line [of 2] line [of 3] by simp
  also have "length (F 0 @ F 1 @ F 2 @ F 3) = length (updatedTiles res)"
    using mset_eq_length [OF m] by (simp only: fin)
  also have "length (filter (doubled ts) (F 0 @ F 1 @ F 2 @ F 3)) = length (filter (doubled ts) (updatedTiles res))"
    using filter_length_mset_cong [OF m, of "doubled ts"] by (simp only: fin)
  finally show ?thesis .
qed

lemma collapse_partner:
  assumes "x \<in> set xs" "tile_id x \<notin> tile_id ` set (collapse xs)"
  shows "\<exists>y \<in> set (collapse xs). \<exists>s \<in> set xs.
           tile_id y = tile_id s \<and> tile_value s = tile_value x \<and> tile_value y = 2 * tile_value x"
  using assms
proof (induction xs rule: collapse.induct)
  case (1 x0 y0 zs)
  show ?case
  proof (cases "tile_value x0 = tile_value y0")
    case True
    define x0' where "x0' = x0\<lparr>tile_value := tile_value y0 * 2, merged := Some True\<rparr>"
    have c: "collapse (x0 # y0 # zs) = x0' # collapse zs" using True by (simp add: x0'_def)
    have nx: "x \<noteq> x0" using "1.prems"(2) unfolding c by (auto simp: x0'_def)
    show ?thesis
    proof (cases "x = y0")
      case True
      have "tile_id x0' = tile_id x0 \<and> tile_value x0 = tile_value x \<and> tile_value x0' = 2 * tile_value x"
        using True \<open>tile_value x0 = tile_value y0\<close> by (simp add: x0'_def)
      then show ?thesis unfolding c by (metis list.set_intros(1))
    next
      case False
      then have xin: "x \<in> set zs" using nx "1.prems"(1) by simp
      have "tile_id x \<notin> tile_id ` set (collapse zs)" using "1.prems"(2) unfolding c by simp
      from "1.IH"(1) [OF True xin this] obtain y s where
        "y \<in> set (collapse zs)" "s \<in> set zs"
        "tile_id y = tile_id s \<and> tile_value s = tile_value x \<and> tile_value y = 2 * tile_value x"
        by blast
      then show ?thesis unfolding c by (metis list.set_intros(2))
    qed
  next
    case False
    have c: "collapse (x0 # y0 # zs) = x0 # collapse (y0 # zs)" using False by simp
    have nx: "x \<noteq> x0" using "1.prems"(2) unfolding c by auto
    then have xin: "x \<in> set (y0 # zs)" using "1.prems"(1) by simp
    have "tile_id x \<notin> tile_id ` set (collapse (y0 # zs))" using "1.prems"(2) unfolding c by simp
    from "1.IH"(2) [OF False xin this] obtain y s where
      "y \<in> set (collapse (y0 # zs))" "s \<in> set (y0 # zs)"
      "tile_id y = tile_id s \<and> tile_value s = tile_value x \<and> tile_value y = 2 * tile_value x"
      by blast
    then show ?thesis unfolding c by (metis list.set_intros(2))
  qed
qed auto

lemma move_set:
  assumes "regular ts" "move d ts = Inr res"
  shows "mset (updatedTiles res) = mset (finalTiles d ts)"
    and "set (updatedTiles res) = set (finalTiles d ts)"
proof -
  from move_result [OF assms(1), of d] obtain res' where
    "move d ts = Inr res'" "mset (updatedTiles res') = mset (finalTiles d ts)" by blast
  then show m: "mset (updatedTiles res) = mset (finalTiles d ts)" using assms(2) by simp
  then show "set (updatedTiles res) = set (finalTiles d ts)" by (rule mset_eq_setD)
qed

lemma reindex_has: "y \<in> set ys \<Longrightarrow> \<exists>p. setAlong d p y \<in> set (reindex d i ys)"
proof (induction ys arbitrary: i)
  case Nil
  then show ?case by simp
next
  case (Cons a ys)
  show ?case
  proof (cases "y = a")
    case True
    then show ?thesis by (metis list.set_intros(1) reindex.simps(2))
  next
    case False
    then have "y \<in> set ys" using Cons.prems by simp
    from Cons.IH [OF this, of "i + 1"] show ?thesis by (metis list.set_intros(2) reindex.simps(2))
  qed
qed

lemma regular_line_of:
  assumes "regular ts" "t \<in> set ts"
  shows "\<exists>r<4. t \<in> set (lineTiles d ts r)"
proof -
  from assms have "inRange GRID_SIZE t" by (simp add: regular_def well_formed_def)
  from inRange_line [OF this, of d] obtain r where "r < 4" "lineOf d t = int r" by blast
  then show ?thesis using assms(2) by (auto simp: lineTiles_set)
qed

lemma move_partner:
  assumes wf: "regular ts" and mv: "move d ts = Inr res"
    and t: "t \<in> set ts" and gone: "tile_id t \<notin> tile_id ` set (updatedTiles res)"
  shows "\<exists>t' \<in> set (updatedTiles res). \<exists>s \<in> set ts.
           tile_id s = tile_id t' \<and> lineOf d s = lineOf d t \<and> tile_value s = tile_value t
           \<and> tile_value t' = 2 * tile_value t"
proof -
  from regular_line_of [OF wf t, of d] obtain r where r: "r < 4" "t \<in> set (lineTiles d ts r)"
    by blast
  define X where "X = lineTiles d ts r"
  have sub: "set (lineResult d X) \<subseteq> set (updatedTiles res)"
    unfolding move_set(2) [OF wf mv] finalTiles_set X_def using r(1) by blast
  have "tile_id t \<notin> tile_id ` set (lineResult d X)" using gone sub by blast
  then have "tile_id t \<notin> tile_id ` set (collapse X)"
    by (simp add: lineResult_def reindex_set_ids)
  from collapse_partner [OF r(2) [folded X_def] this] obtain y s where
    ys: "y \<in> set (collapse X)" "s \<in> set X"
      "tile_id y = tile_id s \<and> tile_value s = tile_value t \<and> tile_value y = 2 * tile_value t"
    by blast
  from reindex_has [OF ys(1), of d 0] obtain p where "setAlong d p y \<in> set (lineResult d X)"
    unfolding lineResult_def by blast
  then have o: "setAlong d p y \<in> set (updatedTiles res)" using sub by blast
  have s: "s \<in> set ts" "lineOf d s = lineOf d t"
    using ys(2) r(2) by (simp_all add: X_def lineTiles_set)
  show ?thesis
  proof (rule bexI [OF _ o], rule bexI [OF _ s(1)])
    show "tile_id s = tile_id (setAlong d p y) \<and> lineOf d s = lineOf d t \<and> tile_value s = tile_value t
           \<and> tile_value (setAlong d p y) = 2 * tile_value t"
      using ys(3) s(2) by simp
  qed
qed

section \<open>Positions after a move\<close>

lemma lineOf_update [simp]: "lineOf d (t\<lparr>tile_value := v, merged := m\<rparr>) = lineOf d t"
  by (cases d) simp_all

lemma along_update [simp]: "along d (t\<lparr>tile_value := v, merged := m\<rparr>) = along d t"
  by (cases d) simp_all

lemma lineResult_line:
  assumes "z \<in> set (lineResult d (lineTiles d ts r))"
  shows "lineOf d z = int r"
proof -
  from lineResult_elems [OF assms] obtain x p where
    x: "x \<in> set (lineTiles d ts r)" "z = setAlong d p x
            \<or> z = setAlong d p (x\<lparr>tile_value := tile_value x * 2, merged := Some True\<rparr>)"
    by blast
  have "lineOf d x = int r" using x(1) by (simp add: lineTiles_set)
  then show ?thesis using x(2) by auto
qed

lemma reindex_along:
  "map (along d) (reindex d i ys) = map (\<lambda>j. targetPos d (i + int j)) [0..<length ys]"
proof (induction ys arbitrary: i)
  case Nil
  show ?case by simp
next
  case (Cons y ys)
  have "[0..<length (y # ys)] = 0 # map Suc [0..<length ys]"
    by (simp add: upt_conv_Cons map_Suc_upt del: upt_Suc)
  then have "map (\<lambda>j. targetPos d (i + int j)) [0..<length (y # ys)]
     = targetPos d i # map (\<lambda>j. targetPos d (i + int (Suc j))) [0..<length ys]"
    by (simp add: o_def)
  also have "map (\<lambda>j. targetPos d (i + int (Suc j))) [0..<length ys]
     = map (\<lambda>j. targetPos d (i + 1 + int j)) [0..<length ys]"
    by (rule map_cong [OF refl]) (simp add: add.assoc)
  also have "\<dots> = map (along d) (reindex d (i + 1) ys)"
    by (rule Cons.IH [symmetric])
  finally show ?case by simp
qed

lemma targetPos_inj: "targetPos d i = targetPos d j \<Longrightarrow> i = j"
  by (cases d) simp_all

lemma reindex_along_distinct: "distinct (map (along d) (reindex d i ys))"
  unfolding reindex_along by (auto simp: distinct_map inj_on_def dest!: targetPos_inj)

lemma pos_key:
  "(row a, col a) = (row b, col b) \<longleftrightarrow> (lineOf d a, along d a) = (lineOf d b, along d b)"
  by (cases d) auto

lemma distinct_pos_iff_key:
  "distinct (map (\<lambda>t. (row t, col t)) xs) = distinct (map (\<lambda>t. (lineOf d t, along d t)) xs)"
proof -
  have "(row a = row b \<and> col a = col b) = (lineOf d a = lineOf d b \<and> along d a = along d b)"
    for a b :: "(int, 'a) TileData"
    using pos_key [of a b d] by simp
  then show ?thesis
    unfolding distinct_map inj_on_def by (simp only: prod.inject)
qed

lemma distinct_map_mset_cong:
  assumes "mset xs = mset ys"
  shows "distinct (map f xs) = distinct (map f ys)"
proof -
  have "mset (map f xs) = mset (map f ys)" using assms by (simp only: mset_map)
  then show ?thesis by (rule mset_eq_imp_distinct_iff)
qed

lemma distinct_concat_lines:
  assumes "\<And>r. distinct (map k (G r))"
    and "\<And>r z. z \<in> set (G r) \<Longrightarrow> fst (k z) = int r"
  shows "distinct rs \<Longrightarrow> distinct (map k (concat (map G rs)))"
proof (induction rs)
  case Nil
  show ?case by simp
next
  case (Cons r rs)
  define A where "A = map k (G r)"
  define B where "B = map k (concat (map G rs))"
  have a: "distinct A" unfolding A_def by (rule assms(1))
  have b: "distinct B" unfolding B_def using Cons by simp
  have c: "set A \<inter> set B = {}"
  proof (rule ccontr)
    assume "set A \<inter> set B \<noteq> {}"
    then obtain p where p: "p \<in> set A" "p \<in> set B" by blast
    from p(1) obtain z where z: "z \<in> set (G r)" "p = k z" unfolding A_def by auto
    from p(2) obtain r' z' where z': "r' \<in> set rs" "z' \<in> set (G r')" "p = k z'"
      unfolding B_def by auto
    have "fst p = int r" using assms(2) [OF z(1)] z(2) by simp
    moreover have "fst p = int r'" using assms(2) [OF z'(2)] z'(3) by simp
    ultimately have "r = r'" by simp
    then show False using z'(1) Cons.prems by simp
  qed
  have "map k (concat (map G (r # rs))) = A @ B" by (simp add: A_def B_def)
  then show ?case using a b c by (simp only: distinct_append simp_thms)
qed

lemma distinct_map_pair:
  assumes "distinct (map f xs)"
  shows "distinct (map (\<lambda>x. (g x, f x)) xs)"
  using assms unfolding distinct_map inj_on_def by simp

lemma finalTiles_positions: "distinct (map (\<lambda>t. (row t, col t)) (finalTiles d ts))"
proof -
  have 1: "distinct (map (\<lambda>t. (lineOf d t, along d t)) (lineResult d (lineTiles d ts r)))" for r
    unfolding lineResult_def by (rule distinct_map_pair [OF reindex_along_distinct])
  have 2: "fst (lineOf d z, along d z) = int r" if "z \<in> set (lineResult d (lineTiles d ts r))" for r z
    using lineResult_line [OF that] by simp
  have "distinct (map (\<lambda>t. (lineOf d t, along d t))
          (concat (map (\<lambda>r. lineResult d (lineTiles d ts r)) [0..<GRID_SIZE])))"
    by (rule distinct_concat_lines [where k = "\<lambda>t. (lineOf d t, along d t)", OF 1 2]) simp_all
  then show ?thesis
    unfolding finalTiles_def distinct_pos_iff_key [of _ d] .
qed

lemma line_length:
  assumes "regular ts"
  shows "length (lineTiles d ts r) \<le> 4"
proof -
  define X where "X = lineTiles d ts r"
  have "distinct (map (\<lambda>t. (lineOf d t, along d t)) ts)"
    using assms unfolding regular_def well_formed_def distinct_pos_iff_key [of _ d] by simp
  then have "distinct (map (\<lambda>t. (lineOf d t, along d t)) (filter (\<lambda>t. lineOf d t = int r) ts))"
    by (rule distinct_map_filter)
  moreover have "mset X = mset (filter (\<lambda>t. lineOf d t = int r) ts)"
    by (simp add: X_def lineTiles_def)
  ultimately have dk: "distinct (map (\<lambda>t. (lineOf d t, along d t)) X)"
    using distinct_map_mset_cong by blast
  have ln: "lineOf d x = int r" if "x \<in> set X" for x
    using that by (simp add: X_def lineTiles_set)
  have "distinct (map (along d) X)"
    using dk unfolding distinct_map inj_on_def using ln by simp
  then have "length X = card (along d ` set X)"
    by (metis distinct_card length_map set_map)
  also have "along d ` set X \<subseteq> {0, 1, 2, 3}"
  proof
    fix a
    assume "a \<in> along d ` set X"
    then obtain x where x: "x \<in> set X" "a = along d x" by blast
    then have "x \<in> set ts" by (simp add: X_def lineTiles_set)
    then have "inRange GRID_SIZE x" using assms by (simp add: regular_def well_formed_def)
    then have "0 \<le> along d x \<and> along d x < 4"
      by (cases d) (simp_all add: inRange_def GRID_SIZE_def)
    then show "a \<in> {0, 1, 2, 3}" using x(2) by auto
  qed
  then have "card (along d ` set X) \<le> card {0, 1, 2, 3 :: int}"
    by (rule card_mono [rotated]) simp
  also have "card {0, 1, 2, 3 :: int} = 4" by simp
  finally show ?thesis unfolding X_def .
qed

lemma targetPos_range: "0 \<le> i \<Longrightarrow> i < 4 \<Longrightarrow> 0 \<le> targetPos d i \<and> targetPos d i < 4"
  by (cases d) (simp_all add: GRID_SIZE_def)

lemma lineResult_along_range:
  assumes "regular ts" "z \<in> set (lineResult d (lineTiles d ts r))"
  shows "0 \<le> along d z \<and> along d z < 4"
proof -
  define C where "C = collapse (lineTiles d ts r)"
  have len: "length C \<le> 4"
    using collapse_length [of "lineTiles d ts r"] line_length [OF assms(1), of d r]
    by (simp add: C_def)
  have "along d z \<in> set (map (along d) (reindex d 0 C))"
    using assms(2) by (simp add: lineResult_def C_def)
  then obtain j where j: "j < length C" "along d z = targetPos d (int j)"
    unfolding reindex_along by auto
  have "0 \<le> int j" "int j < 4" using j(1) len by simp_all
  from targetPos_range [OF this] show ?thesis using j(2) by simp
qed

lemma move_regular:
  assumes wf: "regular ts" and mv: "move d ts = Inr res"
  shows "regular (updatedTiles res)"
proof -
  have dts: "distinct (map tile_id ts)" using wf by (simp add: regular_def well_formed_def)
  note m = move_set [OF wf mv]
  have 1: "distinct (map tile_id (updatedTiles res))"
    using finalTiles_distinct [OF dts, of d] distinct_map_mset_cong [OF m(1), of tile_id] by simp
  have 2: "distinct (map (\<lambda>t. (row t, col t)) (updatedTiles res))"
    using finalTiles_positions [of d ts] distinct_map_mset_cong [OF m(1), of "\<lambda>t. (row t, col t)"]
    by simp
  have 3: "inRange GRID_SIZE z \<and> powerOfTwo (tile_value z)" if z: "z \<in> set (updatedTiles res)" for z
  proof
    from z obtain r where r: "r < 4" "z \<in> set (lineResult d (lineTiles d ts r))"
      unfolding m(2) finalTiles_set by blast
    have "lineOf d z = int r" by (rule lineResult_line [OF r(2)])
    moreover have "0 \<le> along d z \<and> along d z < 4" by (rule lineResult_along_range [OF wf r(2)])
    ultimately show "inRange GRID_SIZE z"
      using r(1) by (cases d) (simp_all add: inRange_def GRID_SIZE_def)
    from move_elems [OF wf mv z] obtain t p where
      t: "t \<in> set ts" "z = setAlong d p t
            \<or> z = setAlong d p (t\<lparr>tile_value := tile_value t * 2, merged := Some True\<rparr>)"
      by blast
    have pt: "powerOfTwo (tile_value t)" using t(1) wf by (simp add: regular_def well_formed_def)
    from t(2) have "tile_value z = tile_value t \<or> tile_value z = 2 * tile_value t"
      by auto
    then show "powerOfTwo (tile_value z)"
      using pt powerOfTwo_double [OF pt] by auto
  qed
  show ?thesis
    unfolding regular_def well_formed_def using 1 2 3 by blast
qed

lemma gain_removed:
  assumes "distinct (map tile_id xs)"
  shows "gain xs = 2 * sum_list (map tile_value
            (filter (\<lambda>x. tile_id x \<notin> tile_id ` set (collapse xs)) xs))"
  using assms
proof (induction xs rule: collapse.induct)
  case (1 x0 y0 zs)
  show ?case
  proof (cases "tile_value x0 = tile_value y0")
    case True
    define x0' where "x0' = x0\<lparr>tile_value := tile_value y0 * 2, merged := Some True\<rparr>"
    have c: "collapse (x0 # y0 # zs) = x0' # collapse zs" using True by (simp add: x0'_def)
    have dz: "distinct (map tile_id zs)" using "1.prems" by simp
    have dy: "distinct (map tile_id (y0 # zs))" using "1.prems" by simp
    have y0x0: "tile_id y0 \<noteq> tile_id x0"
      by (rule distinct_ids_notin [OF "1.prems"]) simp
    have y0z: "tile_id y0 \<notin> tile_id ` set (collapse zs)"
    proof
      assume "tile_id y0 \<in> tile_id ` set (collapse zs)"
      then have "tile_id y0 \<in> tile_id ` set zs" using collapse_ids_subset [of zs] by blast
      then obtain b where "b \<in> set zs" "tile_id y0 = tile_id b" by blast
      then show False using distinct_ids_notin [OF dy, of b] by simp
    qed
    have f: "filter (\<lambda>x. tile_id x \<notin> tile_id ` set (x0' # collapse zs)) zs
       = filter (\<lambda>x. tile_id x \<notin> tile_id ` set (collapse zs)) zs"
    proof (rule filter_cong [OF refl])
      fix z
      assume "z \<in> set zs"
      then have "tile_id z \<noteq> tile_id x0" using distinct_ids_notin [OF "1.prems", of z] by simp
      then show "(tile_id z \<notin> tile_id ` set (x0' # collapse zs)) = (tile_id z \<notin> tile_id ` set (collapse zs))"
        by (simp add: x0'_def)
    qed
    have "filter (\<lambda>x. tile_id x \<notin> tile_id ` set (x0' # collapse zs)) (x0 # y0 # zs)
       = y0 # filter (\<lambda>x. tile_id x \<notin> tile_id ` set (collapse zs)) zs"
      using y0x0 y0z f by (simp add: x0'_def)
    then show ?thesis
      unfolding c using True "1.IH"(1) [OF True dz] by simp
  next
    case False
    have c: "collapse (x0 # y0 # zs) = x0 # collapse (y0 # zs)" using False by simp
    have dy: "distinct (map tile_id (y0 # zs))" using "1.prems" by simp
    have f: "filter (\<lambda>x. tile_id x \<notin> tile_id ` set (x0 # collapse (y0 # zs))) (y0 # zs)
       = filter (\<lambda>x. tile_id x \<notin> tile_id ` set (collapse (y0 # zs))) (y0 # zs)"
    proof (rule filter_cong [OF refl])
      fix z
      assume "z \<in> set (y0 # zs)"
      then have "tile_id z \<noteq> tile_id x0" using distinct_ids_notin [OF "1.prems", of z] by simp
      then show "(tile_id z \<notin> tile_id ` set (x0 # collapse (y0 # zs))) = (tile_id z \<notin> tile_id ` set (collapse (y0 # zs)))"
        by simp
    qed
    have "filter (\<lambda>x. tile_id x \<notin> tile_id ` set (x0 # collapse (y0 # zs))) (x0 # y0 # zs)
       = filter (\<lambda>x. tile_id x \<notin> tile_id ` set (collapse (y0 # zs))) (y0 # zs)"
      using f by simp
    then show ?thesis
      unfolding c using False "1.IH"(2) [OF False dy] by simp
  qed
qed simp_all

lemma move_score:
  assumes wf: "regular ts" and mv: "move d ts = Inr res"
  shows "scoreIncrease res = 2 * sum_list (map tile_value
            (filter (\<lambda>t. tile_id t \<notin> tile_id ` set (updatedTiles res)) ts))"
proof -
  have dts: "distinct (map tile_id ts)" using wf by (simp add: regular_def well_formed_def)
  define X where "X = lineTiles d ts"
  define P where "P t \<longleftrightarrow> tile_id t \<notin> tile_id ` set (updatedTiles res)" for t :: "(int, 'a) TileData"
  from move_result [OF wf, of d] obtain res' where
    "move d ts = Inr res'" "scoreIncrease res' = (\<Sum>r\<leftarrow>[0..<4]. gain (lineTiles d ts r))" by blast
  then have sc: "scoreIncrease res = gain (X 0) + gain (X 1) + gain (X 2) + gain (X 3)"
    using mv by (simp add: upt4 X_def)
  have part: "mset ts = mset (X 0 @ X 1 @ X 2 @ X 3)"
    using partition_lines [OF regular_lines [OF wf], of d] by (simp add: upt4 X_def)
  have line: "gain (X r) = 2 * sum_list (map tile_value (filter P (X r)))" if r: "r < 4" for r
  proof -
    have dX: "distinct (map tile_id (X r))" unfolding X_def by (rule lineTiles_distinct [OF dts])
    have "filter P (X r) = filter (\<lambda>x. tile_id x \<notin> tile_id ` set (collapse (X r))) (X r)"
    proof (rule filter_cong [OF refl])
      fix x
      assume x: "x \<in> set (X r)"
      have "tile_id x \<in> tile_id ` set (finalTiles d ts)
          \<longleftrightarrow> tile_id x \<in> tile_id ` set (lineResult d (X r))"
      proof
        assume "tile_id x \<in> tile_id ` set (finalTiles d ts)"
        then obtain r' where r': "tile_id x \<in> tile_id ` set (lineResult d (lineTiles d ts r'))"
          unfolding finalTiles_ids_line by blast
        then have "tile_id x \<in> tile_id ` set (lineTiles d ts r')"
          using lineResult_ids_subset [of d "lineTiles d ts r'"] by blast
        then have "r' = r" using ids_other_line [OF dts x [unfolded X_def], of r'] by blast
        then show "tile_id x \<in> tile_id ` set (lineResult d (X r))" using r' by (simp add: X_def)
      next
        assume "tile_id x \<in> tile_id ` set (lineResult d (X r))"
        then show "tile_id x \<in> tile_id ` set (finalTiles d ts)"
          unfolding finalTiles_ids_line X_def using r by blast
      qed
      then show "P x = (tile_id x \<notin> tile_id ` set (collapse (X r)))"
        unfolding P_def move_set(2) [OF wf mv] by (simp add: lineResult_def reindex_set_ids)
    qed
    then show ?thesis using gain_removed [OF dX] by simp
  qed
  have "sum_list (map tile_value (filter P ts)) = sum_list (map tile_value (filter P (X 0 @ X 1 @ X 2 @ X 3)))"
  proof (rule sum_list_mset_cong)
    show "mset (filter P ts) = mset (filter P (X 0 @ X 1 @ X 2 @ X 3))"
      using part by (simp only: mset_filter)
  qed
  then show ?thesis
    unfolding sc P_def [symmetric] using line [of 0] line [of 1] line [of 2] line [of 3] by simp
qed


lemma gain_le_sum: "\<forall>x \<in> set xs. 0 \<le> tile_value x \<Longrightarrow> gain xs \<le> sum_list (map tile_value xs)"
  by (induction xs rule: collapse.induct) auto

lemma move_score_le:
  assumes wf: "regular ts" and mv: "move d ts = Inr res"
  shows "scoreIncrease res \<le> sum_list (map tile_value ts)"
proof -
  define X where "X = lineTiles d ts"
  from move_result [OF wf, of d] obtain res' where
    "move d ts = Inr res'" "scoreIncrease res' = (\<Sum>r\<leftarrow>[0..<4]. gain (lineTiles d ts r))" by blast
  then have sc: "scoreIncrease res = gain (X 0) + gain (X 1) + gain (X 2) + gain (X 3)"
    using mv by (simp add: upt4 X_def)
  have part: "mset ts = mset (X 0 @ X 1 @ X 2 @ X 3)"
    using partition_lines [OF regular_lines [OF wf], of d] by (simp add: upt4 X_def)
  have total: "sum_list (map tile_value ts) = sum_list (map tile_value (X 0 @ X 1 @ X 2 @ X 3))"
    by (rule sum_list_mset_cong [OF part])
  have line: "gain (X r) \<le> sum_list (map tile_value (X r))" for r
  proof (rule gain_le_sum, rule ballI)
    fix x assume "x \<in> set (X r)"
    then have "x \<in> set ts" by (simp add: X_def lineTiles_set)
    then have "powerOfTwo (tile_value x)" using wf by (simp add: regular_def well_formed_def)
    then show "0 \<le> tile_value x" using powerOfTwo_pos [of "tile_value x"] by simp
  qed
  show ?thesis
    unfolding sc total using line [of 0] line [of 1] line [of 2] line [of 3] by simp
qed
section \<open>The spawner on well-formed boards\<close>

lemma emptyCells_mem:
  assumes "(r, c) \<in> set (emptyCells g)"
  shows "\<exists>r' c'. r = int r' \<and> c = int c' \<and> r' < 4 \<and> c' < 4 \<and> g ! r' ! c' = 0"
proof -
  have "(r, c) \<in> set (topRowEmpty g) \<or> (r, c) \<in> set (restEmpty g)"
    using assms by (auto simp: emptyCells_def split: if_splits)
  then show ?thesis
  proof
    assume "(r, c) \<in> set (topRowEmpty g)"
    then obtain c' where "c' < 4" "g ! 0 ! c' = 0" "r = 0" "c = int c'"
      by (auto simp: topRowEmpty_def GRID_SIZE_def)
    then show ?thesis by (metis of_nat_0 zero_less_numeral)
  next
    assume "(r, c) \<in> set (restEmpty g)"
    then obtain r' c' where "r' < 4" "c' < 4" "g ! r' ! c' = 0" "r = int r'" "c = int c'"
      by (auto simp: restEmpty_def GRID_SIZE_def)
    then show ?thesis by blast
  qed
qed

lemma cellValue_occupied:
  assumes "well_formed ts" "t \<in> set ts"
  shows "cellValue ts (row t) (col t) \<noteq> 0"
proof -
  define here where "here = filter (\<lambda>x. row x = row t \<and> col x = col t) ts"
  have ne: "here \<noteq> []" using assms(2) by (auto simp: here_def filter_empty_conv)
  then have "last here \<in> set here" by (rule last_in_set)
  then have "last here \<in> set ts" by (simp add: here_def)
  then have "powerOfTwo (tile_value (last here))" using assms(1) by (simp add: well_formed_def)
  then have "tile_value (last here) \<noteq> 0" using powerOfTwo_pos by fastforce
  then show ?thesis using ne by (simp add: cellValue_def here_def [symmetric])
qed

lemma addRandomTile_positions:
  assumes wf: "well_formed ts" and a: "addRandomTile n u1 u2 ts = Inr (Some res, n')"
  shows "distinct (map (\<lambda>t. (row t, col t)) (tilesWithNew res))"
proof -
  from tilesToGrid_cells [of ts 4] obtain g where
    g: "tilesToGrid ts 4 = Inr g" "\<forall>r<4. \<forall>c<4. g ! r ! c = cellValue ts (int r) (int c)"
    by blast
  define cells where "cells = emptyCells g"
  define k where "k = nat \<lfloor>u1 * real (length cells)\<rfloor>"
  from a g(1) have k: "k < length cells"
    and res: "tilesWithNew res = ts @ [\<lparr>tile_id = n, tile_value = (if u2 < 9 / 10 then 2 else 4),
        row = fst (cells ! k), col = snd (cells ! k),
        isNew = None, isMerged = None, merged = None, mergedFrom = None\<rparr>]"
    by (auto simp: addRandomTile_def GRID_SIZE_def Let_def cells_def k_def
        split: if_splits prod.splits)
  have "(fst (cells ! k), snd (cells ! k)) \<in> set (emptyCells g)"
    using k by (simp add: cells_def)
  from emptyCells_mem [OF this] g(2) have empty: "cellValue ts (fst (cells ! k)) (snd (cells ! k)) = 0"
    by auto
  have "(fst (cells ! k), snd (cells ! k)) \<notin> set (map (\<lambda>t. (row t, col t)) ts)"
  proof
    assume "(fst (cells ! k), snd (cells ! k)) \<in> set (map (\<lambda>t. (row t, col t)) ts)"
    then obtain t where t: "t \<in> set ts" "row t = fst (cells ! k)" "col t = snd (cells ! k)"
      by auto
    from cellValue_occupied [OF wf t(1)] empty t(2,3) show False by simp
  qed
  moreover have "distinct (map (\<lambda>t. (row t, col t)) ts)" using wf by (simp add: well_formed_def)
  ultimately show ?thesis unfolding res by simp
qed

lemma addRandomTile_returns:
  assumes "0 \<le> u1" "u1 < 1"
  shows "\<exists>x n'. addRandomTile n u1 u2 ts = Inr (x, n')"
proof -
  from tilesToGrid_cells [of ts 4] obtain g where g: "tilesToGrid ts 4 = Inr g" by blast
  define len where "len = length (emptyCells g)"
  show ?thesis
  proof (cases "len = 0")
    case True
    then show ?thesis using g by (simp add: addRandomTile_def GRID_SIZE_def len_def)
  next
    case False
    then have pos: "0 < real len" by simp
    have "0 \<le> u1 * real len" using assms(1) pos by simp
    then have lo: "0 \<le> \<lfloor>u1 * real len\<rfloor>" by simp
    have "u1 * real len < real len" using assms(2) pos by simp
    then have "\<lfloor>u1 * real len\<rfloor> < int len" by (simp add: floor_less_iff)
    then have hi: "nat \<lfloor>u1 * real len\<rfloor> < len" using lo by linarith
    show ?thesis
      using g False lo hi
      by (simp add: addRandomTile_def GRID_SIZE_def Let_def len_def split: prod.splits)
  qed
qed

lemma addRandomTile_Some:
  assumes "addRandomTile n u1 u2 ts = Inr (Some res, n')"
  shows "\<exists>t r c. tilesWithNew res = ts @ [t] \<and> newTile res = t \<and> n' = n + 1
     \<and> tile_id t = n \<and> tile_value t \<in> {2, 4} \<and> row t = int r \<and> col t = int c
     \<and> r < 4 \<and> c < 4 \<and> cellValue ts (int r) (int c) = 0"
proof -
  from tilesToGrid_cells [of ts 4] obtain g where
    g: "tilesToGrid ts 4 = Inr g" "\<forall>r<4. \<forall>c<4. g ! r ! c = cellValue ts (int r) (int c)"
    by blast
  define cells where "cells = emptyCells g"
  define k where "k = nat \<lfloor>u1 * real (length cells)\<rfloor>"
  define t :: "(int, 'a) TileData" where "t = \<lparr>tile_id = n, tile_value = (if u2 < 9 / 10 then 2 else 4),
        row = fst (cells ! k), col = snd (cells ! k),
        isNew = None, isMerged = None, merged = None, mergedFrom = None\<rparr>"
  from assms g(1) have k: "k < length cells"
    and res: "tilesWithNew res = ts @ [t]" "newTile res = t" "n' = n + 1"
    by (auto simp: addRandomTile_def GRID_SIZE_def Let_def cells_def k_def t_def
        split: if_splits prod.splits)
  have "(fst (cells ! k), snd (cells ! k)) \<in> set (emptyCells g)"
    using k by (simp add: cells_def)
  from emptyCells_mem [OF this] obtain r c where
    rc: "fst (cells ! k) = int r" "snd (cells ! k) = int c" "r < 4" "c < 4" "g ! r ! c = 0"
    by blast
  have "cellValue ts (int r) (int c) = 0" using rc(3,4,5) g(2) by simp
  moreover have "tile_id t = n" "tile_value t \<in> {2, 4}" "row t = int r" "col t = int c"
    using rc(1,2) by (simp_all add: t_def)
  ultimately show ?thesis using res rc(3,4) by blast
qed

lemma addRandomTile_empty_cell:
  assumes "0 \<le> u1" "u1 < 1" "r < 4" "c < 4" "cellValue ts (int r) (int c) = 0"
  shows "\<exists>res n'. addRandomTile n u1 u2 ts = Inr (Some res, n')"
proof -
  from addRandomTile_returns [OF assms(1,2), of n u2 ts] obtain x n' where
    x: "addRandomTile n u1 u2 ts = Inr (x, n')" by blast
  have "x \<noteq> None"
  proof
    assume "x = None"
    then have "\<exists>n'. addRandomTile n u1 u2 ts = Inr (None, n')" using x by blast
    then have "\<forall>r<4. \<forall>c<4. cellValue ts (int r) (int c) \<noteq> 0"
      using addRandomTile_None_iff [of n u1 u2 ts] by blast
    then show False using assms(3,4,5) by blast
  qed
  then show ?thesis using x by auto
qed


lemma cellValue_snoc: "cellValue (ts @ [t]) (row t) (col t) = tile_value t"
  by (simp add: cellValue_def)

section \<open>A second move, and neighbouring equal tiles\<close>

lemma collapse_length_adjV: "length (collapse xs) = length xs \<longleftrightarrow> \<not> adjV (map tile_value xs)"
proof (induction xs rule: collapse.induct)
  case (1 x y zs)
  show ?case
  proof (cases "tile_value x = tile_value y")
    case True
    have "length (collapse zs) \<le> length zs" by (rule collapse_length)
    then show ?thesis using True by simp
  next
    case False
    then show ?thesis using 1 by simp
  qed
qed simp_all

lemma collapse_id_iff: "collapse xs = xs \<longleftrightarrow> \<not> adjV (map tile_value xs)"
  using collapse_length_adjV [of xs] collapse_length_eq [of xs] by auto

lemma gain_zero: "\<not> adjV (map tile_value xs) \<Longrightarrow> gain xs = 0"
  by (induction xs rule: collapse.induct) auto

lemma gain_nonneg: "\<forall>x \<in> set xs. 0 < tile_value x \<Longrightarrow> 0 \<le> gain xs"
  by (induction xs rule: collapse.induct) auto

lemma gain_pos: "\<forall>x \<in> set xs. 0 < tile_value x \<Longrightarrow> adjV (map tile_value xs) \<Longrightarrow> 0 < gain xs"
proof (induction xs rule: collapse.induct)
  case (1 x y zs)
  show ?case
  proof (cases "tile_value x = tile_value y")
    case True
    have "0 \<le> gain zs" using "1.prems"(1) by (intro gain_nonneg) simp
    moreover have "0 < tile_value y" using "1.prems"(1) by simp
    ultimately show ?thesis using True by simp
  next
    case False
    then show ?thesis using 1 by simp
  qed
qed simp_all

lemma adjV_nth: "adjV vs \<longleftrightarrow> (\<exists>j. Suc j < length vs \<and> vs ! j = vs ! Suc j)"
proof (induction vs rule: adjV.induct)
  case (1 a b r)
  show ?case
  proof
    assume "adjV (a # b # r)"
    then consider "a = b" | "adjV (b # r)" by auto
    then show "\<exists>j. Suc j < length (a # b # r) \<and> (a # b # r) ! j = (a # b # r) ! Suc j"
    proof cases
      case 1
      then have "Suc 0 < length (a # b # r) \<and> (a # b # r) ! 0 = (a # b # r) ! Suc 0" by simp
      then show ?thesis by blast
    next
      case 2
      then obtain j where "Suc j < length (b # r)" "(b # r) ! j = (b # r) ! Suc j"
        using "1.IH" by blast
      then have "Suc (Suc j) < length (a # b # r) \<and> (a # b # r) ! Suc j = (a # b # r) ! Suc (Suc j)"
        by simp
      then show ?thesis by blast
    qed
  next
    assume "\<exists>j. Suc j < length (a # b # r) \<and> (a # b # r) ! j = (a # b # r) ! Suc j"
    then obtain j where j: "Suc j < length (a # b # r)" "(a # b # r) ! j = (a # b # r) ! Suc j"
      by blast
    show "adjV (a # b # r)"
    proof (cases j)
      case 0
      then show ?thesis using j by simp
    next
      case (Suc k)
      then have "Suc k < length (b # r) \<and> (b # r) ! k = (b # r) ! Suc k" using j by simp
      then have "adjV (b # r)" using "1.IH" by blast
      then show ?thesis by simp
    qed
  qed
qed simp_all

lemma reindex_nth:
  "j < length ys \<Longrightarrow> reindex d i ys ! j = setAlong d (targetPos d (i + int j)) (ys ! j)"
proof (induction ys arbitrary: i j)
  case Nil
  then show ?case by simp
next
  case (Cons y ys)
  show ?case
  proof (cases j)
    case 0
    then show ?thesis by simp
  next
    case (Suc k)
    then have "k < length ys" using Cons.prems by simp
    from Cons.IH [OF this, of "i + 1"] show ?thesis using Suc by (simp add: add.assoc)
  qed
qed

lemma reindex_idem: "reindex d i (reindex d i ys) = reindex d i ys"
proof (induction ys arbitrary: i)
  case Nil
  show ?case by simp
next
  case (Cons y ys)
  have "setAlong d p (setAlong d p y) = setAlong d p y" for p
    by (rule setAlong_same) simp
  then show ?case using Cons.IH by simp
qed

lemma sortKey_less:
  "sortKey d (setAlong d (targetPos d i) y) < sortKey d (setAlong d (targetPos d j) z) \<longleftrightarrow> i < j"
  by (cases d) (simp_all add: GRID_SIZE_def)

lemma reindex_sortKey_strict: "sorted_wrt (<) (map (sortKey d) (reindex d i ys))"
  unfolding sorted_wrt_iff_nth_less
proof (intro allI impI)
  fix a b
  assume ab: "a < b" and b: "b < length (map (sortKey d) (reindex d i ys))"
  then have la: "a < length ys" and lb: "b < length ys" by simp_all
  have "map (sortKey d) (reindex d i ys) ! a = sortKey d (setAlong d (targetPos d (i + int a)) (ys ! a))"
    using la by (simp add: reindex_nth)
  moreover have "map (sortKey d) (reindex d i ys) ! b = sortKey d (setAlong d (targetPos d (i + int b)) (ys ! b))"
    using lb by (simp add: reindex_nth)
  ultimately show "map (sortKey d) (reindex d i ys) ! a < map (sortKey d) (reindex d i ys) ! b"
    using ab by (simp only: sortKey_less)
qed

lemma finalTiles_filter_line:
  assumes "r < 4"
  shows "filter (\<lambda>t. lineOf d t = int r) (finalTiles d ts) = lineResult d (lineTiles d ts r)"
proof -
  define F where "F r = lineResult d (lineTiles d ts r)" for r
  have keep: "filter (\<lambda>t. lineOf d t = int r) (F r) = F r"
    by (rule filter_True) (simp add: F_def lineResult_line)
  have drop: "filter (\<lambda>t. lineOf d t = int r) (F r') = []" if "r' \<noteq> r" for r'
  proof (rule filter_False, rule ballI)
    fix z
    assume "z \<in> set (F r')"
    then have "lineOf d z = int r'" unfolding F_def by (rule lineResult_line)
    then show "\<not> lineOf d z = int r" using that by simp
  qed
  have fin: "finalTiles d ts = F 0 @ F 1 @ F 2 @ F 3"
    by (simp add: finalTiles_def GRID_SIZE_def upt4 F_def)
  show ?thesis
    unfolding fin F_def [symmetric]
    using less4_cases [OF assms] keep drop [of 0] drop [of 1] drop [of 2] drop [of 3]
    by (elim disjE) simp_all
qed

lemma lineTiles_after_move:
  assumes wf: "regular ts" and mv: "move d ts = Inr res" and r: "r < 4"
  shows "lineTiles d (updatedTiles res) r = lineResult d (lineTiles d ts r)"
proof -
  define F where "F = lineResult d (lineTiles d ts r)"
  define xs where "xs = filter (\<lambda>t. lineOf d t = int r) (updatedTiles res)"
  have "mset xs = mset (filter (\<lambda>t. lineOf d t = int r) (finalTiles d ts))"
    unfolding xs_def using move_set(1) [OF wf mv] by (simp only: mset_filter)
  then have m: "mset xs = mset F"
    unfolding finalTiles_filter_line [OF r] F_def .
  have st: "sorted_wrt (<) (map (sortKey d) F)"
    unfolding F_def lineResult_def by (rule reindex_sortKey_strict)
  then have "sorted (map (sortKey d) F)" "distinct (map (sortKey d) F)"
    by (simp_all add: strict_sorted_iff)
  then have s: "sorted (map (sortKey d) F)" and "inj_on (sortKey d) (set F)"
    by (simp_all add: distinct_map)
  then have i: "inj_on (sortKey d) (set xs)"
    using mset_eq_setD [OF m] by simp
  have "sort_key (sortKey d) xs = F"
    by (rule sort_key_inj_key_eq [OF m i s])
  then show ?thesis
    unfolding lineTiles_def xs_def F_def .
qed

lemma lineResult_compact:
  "lineResult d (lineResult d xs) = lineResult d xs \<longleftrightarrow> \<not> adjV (map tile_value (lineResult d xs))"
proof
  assume eq: "lineResult d (lineResult d xs) = lineResult d xs"
  have "length (collapse (lineResult d xs)) = length (lineResult d (lineResult d xs))"
    by (simp add: lineResult_def)
  then have "length (collapse (lineResult d xs)) = length (lineResult d xs)"
    unfolding eq .
  then show "\<not> adjV (map tile_value (lineResult d xs))"
    by (rule collapse_length_adjV [THEN iffD1])
next
  assume "\<not> adjV (map tile_value (lineResult d xs))"
  then have "collapse (lineResult d xs) = lineResult d xs"
    by (rule collapse_id_iff [THEN iffD2])
  then have "lineResult d (lineResult d xs) = reindex d 0 (lineResult d xs)"
    by (simp add: lineResult_def)
  also have "\<dots> = lineResult d xs"
    unfolding lineResult_def by (rule reindex_idem)
  finally show "lineResult d (lineResult d xs) = lineResult d xs" .
qed

lemma targetPos_step:
  "targetPos d (i + 1) = targetPos d i + 1 \<or> targetPos d i = targetPos d (i + 1) + 1"
  by (cases d) simp_all

lemma targetPos_neighbours:
  "targetPos d (int j) = targetPos d (int i) + 1 \<Longrightarrow> j = Suc i \<or> i = Suc j"
  by (cases d) (auto simp: GRID_SIZE_def)

lemma reindex_along_nth:
  "j < length ys \<Longrightarrow> along d (reindex d 0 ys ! j) = targetPos d (int j)"
  by (simp add: reindex_nth)

lemma reindex_value_nth:
  "j < length ys \<Longrightarrow> tile_value (reindex d 0 ys ! j) = tile_value (ys ! j)"
  by (simp add: reindex_nth)

lemma compact_adjV_cells:
  assumes "adjV (map tile_value (reindex d 0 ys))"
  shows "\<exists>a \<in> set (reindex d 0 ys). \<exists>b \<in> set (reindex d 0 ys).
           along d b = along d a + 1 \<and> tile_value a = tile_value b"
proof -
  define F where "F = reindex d 0 ys"
  have "adjV (map tile_value ys)" using assms by simp
  then obtain j where j0: "Suc j < length (map tile_value ys)"
    "map tile_value ys ! j = map tile_value ys ! Suc j"
    unfolding adjV_nth by blast
  have lj: "j < length ys" "Suc j < length ys" using j0(1) by simp_all
  have "tile_value (ys ! j) = tile_value (ys ! Suc j)"
    using j0(2) lj by (simp only: nth_map)
  then have j: "Suc j < length F" "tile_value (F ! j) = tile_value (F ! Suc j)"
    using lj by (simp_all add: F_def reindex_value_nth)
  have aj: "along d (F ! j) = targetPos d (int j)"
    unfolding F_def by (rule reindex_along_nth [OF lj(1)])
  have asj: "along d (F ! Suc j) = targetPos d (int j + 1)"
    unfolding F_def using reindex_along_nth [OF lj(2), of d] by (simp add: add.commute)
  have in1: "F ! j \<in> set F" and in2: "F ! Suc j \<in> set F"
    using j(1) by simp_all
  from targetPos_step [of d "int j"] show ?thesis
  proof
    assume "targetPos d (int j + 1) = targetPos d (int j) + 1"
    then have "along d (F ! Suc j) = along d (F ! j) + 1 \<and> tile_value (F ! j) = tile_value (F ! Suc j)"
      using aj asj j(2) by simp
    then show ?thesis unfolding F_def [symmetric] using in1 in2 by blast
  next
    assume "targetPos d (int j) = targetPos d (int j + 1) + 1"
    then have "along d (F ! j) = along d (F ! Suc j) + 1 \<and> tile_value (F ! Suc j) = tile_value (F ! j)"
      using aj asj j(2) by simp
    then show ?thesis unfolding F_def [symmetric] using in1 in2 by blast
  qed
qed

lemma compact_cells_adjV:
  assumes "a \<in> set (reindex d 0 ys)" "b \<in> set (reindex d 0 ys)"
    and "along d b = along d a + 1" "tile_value a = tile_value b"
  shows "\<exists>j. Suc j < length ys
      \<and> ((a = reindex d 0 ys ! j \<and> b = reindex d 0 ys ! Suc j)
         \<or> (b = reindex d 0 ys ! j \<and> a = reindex d 0 ys ! Suc j))"
proof -
  define F where "F = reindex d 0 ys"
  from assms(1,2) obtain i j where i: "i < length F" "F ! i = a" and j: "j < length F" "F ! j = b"
    unfolding F_def [symmetric] in_set_conv_nth by blast
  have li: "i < length ys" and lj: "j < length ys" using i(1) j(1) by (simp_all add: F_def)
  have "along d a = targetPos d (int i)" "along d b = targetPos d (int j)"
    using reindex_along_nth [OF li, of d] reindex_along_nth [OF lj, of d] i(2) j(2)
    by (simp_all add: F_def)
  then have "targetPos d (int j) = targetPos d (int i) + 1" using assms(3) by simp
  from targetPos_neighbours [OF this] show ?thesis
  proof
    assume "j = Suc i"
    then have "Suc i < length ys \<and> a = F ! i \<and> b = F ! Suc i" using lj i(2) j(2) by simp
    then show ?thesis unfolding F_def by blast
  next
    assume "i = Suc j"
    then have "Suc j < length ys \<and> b = F ! j \<and> a = F ! Suc j" using li i(2) j(2) by simp
    then show ?thesis unfolding F_def by blast
  qed
qed

lemma compact_cells_adjV':
  assumes "a \<in> set (reindex d 0 ys)" "b \<in> set (reindex d 0 ys)"
    and "along d b = along d a + 1" "tile_value a = tile_value b"
  shows "adjV (map tile_value (reindex d 0 ys))"
proof -
  from compact_cells_adjV [OF assms] obtain j where
    j: "Suc j < length ys" "(a = reindex d 0 ys ! j \<and> b = reindex d 0 ys ! Suc j)
         \<or> (b = reindex d 0 ys ! j \<and> a = reindex d 0 ys ! Suc j)"
    by blast
  then have "tile_value (reindex d 0 ys ! j) = tile_value (reindex d 0 ys ! Suc j)"
    using assms(4) by auto
  then have "tile_value (ys ! j) = tile_value (ys ! Suc j)"
    using j(1) by (simp add: reindex_value_nth)
  then have "Suc j < length (map tile_value ys)
     \<and> map tile_value ys ! j = map tile_value ys ! Suc j"
    using j(1) by simp
  then have "adjV (map tile_value ys)" unfolding adjV_nth by blast
  then show ?thesis by simp
qed

lemma move_adjacentEqual:
  assumes wf: "regular ts" and mv: "move d ts = Inr res"
  shows "adjacentEqual d (updatedTiles res)
     \<longleftrightarrow> (\<exists>r<4. adjV (map tile_value (lineResult d (lineTiles d ts r))))"
proof
  assume "adjacentEqual d (updatedTiles res)"
  then obtain a b where ab: "a \<in> set (updatedTiles res)" "b \<in> set (updatedTiles res)"
    "lineOf d a = lineOf d b" "along d b = along d a + 1" "tile_value a = tile_value b"
    unfolding adjacentEqual_def by blast
  from ab(1) obtain r where r: "r < 4" "a \<in> set (lineResult d (lineTiles d ts r))"
    unfolding move_set(2) [OF wf mv] finalTiles_set by blast
  from ab(2) obtain r' where r': "r' < 4" "b \<in> set (lineResult d (lineTiles d ts r'))"
    unfolding move_set(2) [OF wf mv] finalTiles_set by blast
  have "int r = int r'"
    using lineResult_line [OF r(2)] lineResult_line [OF r'(2)] ab(3) by simp
  then have b: "b \<in> set (lineResult d (lineTiles d ts r))" using r'(2) by simp
  have "adjV (map tile_value (lineResult d (lineTiles d ts r)))"
    using compact_cells_adjV' [OF r(2) [unfolded lineResult_def] b [unfolded lineResult_def] ab(4,5)]
    unfolding lineResult_def .
  then show "\<exists>r<4. adjV (map tile_value (lineResult d (lineTiles d ts r)))"
    using r(1) by blast
next
  assume "\<exists>r<4. adjV (map tile_value (lineResult d (lineTiles d ts r)))"
  then obtain r where r: "r < 4" "adjV (map tile_value (lineResult d (lineTiles d ts r)))"
    by blast
  from compact_adjV_cells [OF r(2) [unfolded lineResult_def]] obtain a b where
    ab: "a \<in> set (lineResult d (lineTiles d ts r))" "b \<in> set (lineResult d (lineTiles d ts r))"
      "along d b = along d a + 1 \<and> tile_value a = tile_value b"
    unfolding lineResult_def by blast
  have "lineOf d a = lineOf d b"
    using lineResult_line [OF ab(1)] lineResult_line [OF ab(2)] by simp
  moreover have "a \<in> set (updatedTiles res)" "b \<in> set (updatedTiles res)"
    unfolding move_set(2) [OF wf mv] finalTiles_set using ab(1,2) r(1) by blast+
  ultimately show "adjacentEqual d (updatedTiles res)"
    unfolding adjacentEqual_def using ab(3) by blast
qed

lemma lineResult_values: "map tile_value (lineResult d xs) = map tile_value (collapse xs)"
  by (simp add: lineResult_def)

lemma sum4_zero:
  "0 \<le> a \<Longrightarrow> 0 \<le> b \<Longrightarrow> 0 \<le> c \<Longrightarrow> 0 \<le> e \<Longrightarrow> a + b + c + e = (0::int) \<Longrightarrow>
   a = 0 \<and> b = 0 \<and> c = 0 \<and> e = 0"
  by linarith

lemma no_merge_no_neighbours:
  assumes wf: "regular ts" and mv: "move d ts = Inr res" and sc: "scoreIncrease res = 0"
  shows "\<not> adjacentEqual d (updatedTiles res)"
proof -
  define X where "X = lineTiles d ts"
  have pos: "\<forall>x \<in> set (X r). 0 < tile_value x" for r
    using wf powerOfTwo_pos by (fastforce simp: X_def lineTiles_set regular_def well_formed_def)
  from move_result [OF wf, of d] obtain res' where
    "move d ts = Inr res'" "scoreIncrease res' = (\<Sum>r\<leftarrow>[0..<4]. gain (lineTiles d ts r))" by blast
  then have "gain (X 0) + gain (X 1) + gain (X 2) + gain (X 3) = 0"
    using mv sc by (simp add: upt4 X_def)
  from sum4_zero [OF gain_nonneg [OF pos] gain_nonneg [OF pos] gain_nonneg [OF pos]
      gain_nonneg [OF pos] this]
  have z: "gain (X 0) = 0 \<and> gain (X 1) = 0 \<and> gain (X 2) = 0 \<and> gain (X 3) = 0" .
  have "\<not> adjV (map tile_value (lineResult d (X r)))" if r: "r < 4" for r
  proof -
    have "gain (X r) = 0" using less4_cases [OF r] z by auto
    then have n: "\<not> adjV (map tile_value (X r))" using gain_pos [OF pos, of r] by force
    then have "collapse (X r) = X r" by (rule collapse_id_iff [THEN iffD2])
    then show ?thesis using n by (simp add: lineResult_values)
  qed
  then show ?thesis
    unfolding move_adjacentEqual [OF wf mv] X_def by blast
qed

lemma doubled_mono: "doubled zs z \<Longrightarrow> set zs \<subseteq> set xs \<Longrightarrow> doubled xs z"
  unfolding doubled_def by blast

lemma collapse_head:
  "collapse (y # zs) ! 0 = y \<or> doubled (y # zs) (collapse (y # zs) ! 0)"
  by (cases zs) (auto simp: doubled_def)

lemma collapse_neighbours:
  "Suc j < length (collapse xs) \<Longrightarrow>
   tile_value (collapse xs ! j) = tile_value (collapse xs ! Suc j) \<Longrightarrow>
   doubled xs (collapse xs ! j) \<or> doubled xs (collapse xs ! Suc j)"
proof (induction xs arbitrary: j rule: collapse.induct)
  case (1 x0 y0 zs)
  show ?case
  proof (cases "tile_value x0 = tile_value y0")
    case True
    define x0' where "x0' = x0\<lparr>tile_value := tile_value y0 * 2, merged := Some True\<rparr>"
    have c: "collapse (x0 # y0 # zs) = x0' # collapse zs" using True by (simp add: x0'_def)
    have dx: "doubled (x0 # y0 # zs) x0'" using True by (auto simp: doubled_def x0'_def)
    show ?thesis
    proof (cases j)
      case 0
      then show ?thesis unfolding c using dx by simp
    next
      case (Suc k)
      have "Suc k < length (collapse zs)"
        "tile_value (collapse zs ! k) = tile_value (collapse zs ! Suc k)"
        using "1.prems" unfolding c Suc by simp_all
      from "1.IH"(1) [OF True this]
      have "doubled zs (collapse zs ! k) \<or> doubled zs (collapse zs ! Suc k)" .
      then have "doubled (x0 # y0 # zs) (collapse zs ! k) \<or> doubled (x0 # y0 # zs) (collapse zs ! Suc k)"
        using doubled_mono [of zs _ "x0 # y0 # zs"] by auto
      then show ?thesis unfolding c Suc by simp
    qed
  next
    case False
    have c: "collapse (x0 # y0 # zs) = x0 # collapse (y0 # zs)" using False by simp
    show ?thesis
    proof (cases j)
      case 0
      from collapse_head [of y0 zs] show ?thesis
      proof
        assume "collapse (y0 # zs) ! 0 = y0"
        then have "tile_value (collapse (x0 # y0 # zs) ! Suc 0) = tile_value y0"
          unfolding c by simp
        then show ?thesis using "1.prems"(2) False unfolding 0 c by simp
      next
        assume "doubled (y0 # zs) (collapse (y0 # zs) ! 0)"
        then have "doubled (x0 # y0 # zs) (collapse (y0 # zs) ! 0)"
          by (rule doubled_mono) auto
        then show ?thesis unfolding 0 c by simp
      qed
    next
      case (Suc k)
      have "Suc k < length (collapse (y0 # zs))"
        "tile_value (collapse (y0 # zs) ! k) = tile_value (collapse (y0 # zs) ! Suc k)"
        using "1.prems" unfolding c Suc by simp_all
      from "1.IH"(2) [OF False this]
      have "doubled (y0 # zs) (collapse (y0 # zs) ! k) \<or> doubled (y0 # zs) (collapse (y0 # zs) ! Suc k)" .
      then have "doubled (x0 # y0 # zs) (collapse (y0 # zs) ! k)
          \<or> doubled (x0 # y0 # zs) (collapse (y0 # zs) ! Suc k)"
        using doubled_mono [of "y0 # zs" _ "x0 # y0 # zs"] by auto
      then show ?thesis unfolding c Suc by simp
    qed
  qed
qed simp_all

lemma lineResult_neighbours:
  assumes "a \<in> set (lineResult d xs)" "b \<in> set (lineResult d xs)"
    and "along d b = along d a + 1" "tile_value a = tile_value b"
  shows "doubled xs a \<or> doubled xs b"
proof -
  define C where "C = collapse xs"
  from compact_cells_adjV [OF assms(1,2) [unfolded lineResult_def] assms(3,4)] obtain j where
    j: "Suc j < length C" "(a = reindex d 0 C ! j \<and> b = reindex d 0 C ! Suc j)
         \<or> (b = reindex d 0 C ! j \<and> a = reindex d 0 C ! Suc j)"
    unfolding C_def by blast
  have lj: "j < length C" using j(1) by simp
  have dj: "doubled xs (reindex d 0 C ! j) = doubled xs (C ! j)"
    "doubled xs (reindex d 0 C ! Suc j) = doubled xs (C ! Suc j)"
    using lj j(1) by (simp_all add: reindex_nth)
  have "tile_value (reindex d 0 C ! j) = tile_value (reindex d 0 C ! Suc j)"
    using j(2) assms(4) by auto
  then have "tile_value (C ! j) = tile_value (C ! Suc j)"
    using lj j(1) by (simp add: reindex_value_nth)
  from collapse_neighbours [OF j(1) [unfolded C_def] this [unfolded C_def]]
  have "doubled xs (C ! j) \<or> doubled xs (C ! Suc j)" unfolding C_def .
  then show ?thesis using j(2) dj by auto
qed

lemma moved_iff_changed:
  assumes wf: "regular ts" and mv: "move d ts = Inr res"
  shows "moved res \<longleftrightarrow> updatedTiles res \<noteq> ts"
proof
  assume "updatedTiles res \<noteq> ts"
  moreover from move_result [OF wf, of d] mv have "\<not> moved res \<longrightarrow> updatedTiles res = ts"
    by auto
  ultimately show "moved res" by blast
next
  assume m: "moved res"
  have dts: "distinct (map tile_id ts)" using wf by (simp add: regular_def well_formed_def)
  have vts: "\<forall>t \<in> set ts. tile_value t \<noteq> 0"
    using wf powerOfTwo_pos by (fastforce simp: regular_def well_formed_def)
  from move_result [OF wf, of d] mv m obtain r where
    r: "r < 4" "lineResult d (lineTiles d ts r) \<noteq> lineTiles d ts r"
    by auto
  define X where "X = lineTiles d ts r"
  define F where "F = lineResult d X"
  have FX: "F \<noteq> X" using r(2) by (simp add: F_def X_def)
  have sub: "set F \<subseteq> set (updatedTiles res)"
    unfolding move_set(2) [OF wf mv] finalTiles_set F_def X_def using r(1) by blast
  have Xts: "set X \<subseteq> set ts" by (auto simp: X_def lineTiles_set)
  show "updatedTiles res \<noteq> ts"
  proof
    assume eq: "updatedTiles res = ts"
    have nodbl: "filter (doubled ts) ts = []"
      using move_count [OF wf mv] unfolding eq by simp
    show False
    proof (cases "length F = length X")
      case False
      have dX: "distinct (map tile_id X)" unfolding X_def by (rule lineTiles_distinct [OF dts])
      have vX: "\<forall>x \<in> set X. tile_value x \<noteq> 0" using vts Xts by blast
      from lineResult_count [OF dX vX, of d] False
      have "filter (doubled X) F \<noteq> []" by (auto simp: F_def)
      then obtain z where z: "z \<in> set F" "doubled X z"
        by (metis filter_False)
      have "doubled ts z" by (rule doubled_mono [OF z(2) Xts])
      moreover have "z \<in> set ts" using z(1) sub eq by blast
      ultimately show False using nodbl by (simp add: filter_empty_conv)
    next
      case True
      then have "length (collapse X) = length X" by (simp add: F_def lineResult_def)
      then have cX: "collapse X = X" by (rule collapse_length_eq)
      then have F: "F = reindex d 0 X" by (simp add: F_def lineResult_def)
      from FX True obtain j where j: "j < length X" "F ! j \<noteq> X ! j"
        by (metis nth_equalityI)
      have Fj: "F ! j = setAlong d (targetPos d (int j)) (X ! j)"
        unfolding F using j(1) by (simp add: reindex_nth)
      have "F ! j \<in> set F" using j(1) True by simp
      then have a: "F ! j \<in> set ts" using sub eq by blast
      have b: "X ! j \<in> set ts" using j(1) Xts by auto
      have "tile_id (F ! j) = tile_id (X ! j)" unfolding Fj by simp
      from same_id_same_tile [OF dts a b this] j(2) show False by simp
    qed
  qed
qed

lemma cellValue_nonzero_iff:
  assumes "well_formed ts"
  shows "cellValue ts r c \<noteq> 0 \<longleftrightarrow> (r, c) \<in> set (map (\<lambda>t. (row t, col t)) ts)"
proof
  assume "cellValue ts r c \<noteq> 0"
  then have "filter (\<lambda>t. row t = r \<and> col t = c) ts \<noteq> []"
    by (auto simp: cellValue_def Let_def)
  then obtain t where "t \<in> set ts" "row t = r \<and> col t = c"
    by (auto simp: filter_empty_conv)
  then show "(r, c) \<in> set (map (\<lambda>t. (row t, col t)) ts)" by auto
next
  assume "(r, c) \<in> set (map (\<lambda>t. (row t, col t)) ts)"
  then obtain t where t: "t \<in> set ts" "row t = r" "col t = c" by auto
  from cellValue_occupied [OF assms t(1)] t(2,3) show "cellValue ts r c \<noteq> 0" by simp
qed

lemma full_iff_length:
  assumes wf: "well_formed ts"
  shows "length ts \<le> 16" and "boardFull ts \<longleftrightarrow> length ts = 16"
proof -
  define P where "P = set (map (\<lambda>t. (row t, col t)) ts)"
  define cells :: "(int \<times> int) set" where "cells = {0, 1, 2, 3} \<times> {0, 1, 2, 3}"
  have fin: "finite cells" and card: "card cells = 16"
    by (simp_all add: cells_def card_cartesian_product)
  have sub: "P \<subseteq> cells"
  proof
    fix p
    assume "p \<in> P"
    then obtain t where t: "t \<in> set ts" "p = (row t, col t)" unfolding P_def by auto
    then have "inRange GRID_SIZE t" using wf by (simp add: well_formed_def)
    then have "row t \<in> {0, 1, 2, 3}" "col t \<in> {0, 1, 2, 3}"
      by (auto simp: inRange_def GRID_SIZE_def)
    then show "p \<in> cells" unfolding cells_def t(2) by (rule SigmaI)
  qed
  have len: "length ts = card P"
    unfolding P_def using wf by (metis distinct_card length_map well_formed_def)
  show "length ts \<le> 16"
    unfolding len using card_mono [OF fin sub] card by simp
  have nat_cases: "r \<in> {0..<GRID_SIZE} \<longleftrightarrow> int r \<in> {0, 1, 2, 3}" for r
    by (auto simp: GRID_SIZE_def)
  have "boardFull ts \<longleftrightarrow> cells \<subseteq> P"
  proof
    assume bf: "boardFull ts"
    show "cells \<subseteq> P"
    proof
      fix p
      assume "p \<in> cells"
      then obtain r c where rc: "p = (r, c)" "r \<in> {0, 1, 2, 3}" "c \<in> {0, 1, 2, 3}"
        by (auto simp: cells_def)
      then have "nat r \<in> {0..<GRID_SIZE}" "nat c \<in> {0..<GRID_SIZE}" "int (nat r) = r" "int (nat c) = c"
        by (auto simp: GRID_SIZE_def)
      then have "cellValue ts r c \<noteq> 0" using bf unfolding boardFull_def by metis
      then show "p \<in> P"
        unfolding P_def rc(1) by (simp only: cellValue_nonzero_iff [OF wf])
    qed
  next
    assume c: "cells \<subseteq> P"
    show "boardFull ts"
      unfolding boardFull_def
    proof (intro ballI)
      fix r c'
      assume "r \<in> {0..<GRID_SIZE}" "c' \<in> {0..<GRID_SIZE}"
      then have "(int r, int c') \<in> cells" unfolding cells_def using nat_cases by blast
      then have "(int r, int c') \<in> P" using c by blast
      then show "cellValue ts (int r) (int c') \<noteq> 0"
        unfolding P_def by (simp only: cellValue_nonzero_iff [OF wf])
    qed
  qed
  also have "\<dots> \<longleftrightarrow> P = cells" using sub by blast
  also have "\<dots> \<longleftrightarrow> card P = 16"
    using card_subset_eq [OF fin sub] card by auto
  finally show "boardFull ts \<longleftrightarrow> length ts = 16" unfolding len .
qed


section \<open>Properties of the moves\<close>

text \<open>
  The moves are stated for well-formed lists with two further conditions. The ids are
  pairwise distinct, because the moves address the tiles by id. And the values sum to
  less than \<open>2^53\<close>: the embedding computes with integers, the program with JavaScript
  numbers, and the two agree as long as every number stays below \<open>2^53\<close>; no value and no
  score that a move computes exceeds the sum of the values (\<open>move_score_le\<close>,
  \<open>move_sum\<close>).
\<close>

lemma regularI: "well_formed ts \<Longrightarrow> distinct (map tile_id ts) \<Longrightarrow> regular ts"
  by (simp add: regular_def)

lemma boardExample_wf: "well_formed boardExample"
  by code_simp

lemma boardExample_ids: "distinct (map tile_id boardExample)"
  by code_simp

lemma boardExample_safe: "sum_list (map tile_value boardExample) < 2 ^ 53"
  by code_simp

lemma boardExample_left:
  "move Left boardExample = Inr \<lparr>updatedTiles =
       [(tile 1 4 0 0)\<lparr>merged := Some True\<rparr>, tile 3 4 0 1, tile 4 8 2 0, tile 5 8 3 0],
     scoreIncrease = 4, moved = True\<rparr>"
  by code_simp

lemma boardExample_down:
  "move Down boardExample = Inr \<lparr>updatedTiles =
       [tile 1 2 3 0, tile 2 2 3 1, tile 3 4 3 3, (tile 5 16 3 2)\<lparr>merged := Some True\<rparr>],
     scoreIncrease = 16, moved = True\<rparr>"
  by code_simp

text \<open>
  C3 (as stated). Two tiles of value 2 merge into one tile of value 4: the values sum to 4
  before and after the move, and the score increase is 4. And on a well-formed list with
  a repeated id a tile is lost: of the tiles of value 16 and 2 with the same id,
  \<^verbatim>\<open>moveRight\<close> returns the second one only, with score increase 0.
\<close>

theorem sum_plus_score_counterexample:
  "well_formed [tile 1 2 0 0, tile 2 2 0 1 :: (int, unit) TileData]
   \<and> moveLeft [tile 1 2 0 0, tile 2 2 0 1 :: (int, unit) TileData]
       = Inr \<lparr>updatedTiles = [(tile 1 4 0 0)\<lparr>merged := Some True\<rparr>],
              scoreIncrease = 4, moved = True\<rparr>
   \<and> sum_list (map tile_value [(tile 1 4 0 0)\<lparr>merged := Some True\<rparr> :: (int, unit) TileData])
       \<noteq> sum_list (map tile_value [tile 1 2 0 0, tile 2 2 0 1 :: (int, unit) TileData]) + 4
   \<and> well_formed twoWithOneId
   \<and> moveRight twoWithOneId
       = Inr \<lparr>updatedTiles = [tile 5 2 3 3], scoreIncrease = 0, moved = False\<rparr>
   \<and> sum_list (map tile_value [tile 5 2 3 3 :: (int, unit) TileData])
       \<noteq> sum_list (map tile_value twoWithOneId) + 0"
  by code_simp

text \<open>
  C3 (amended). For every well-formed tile list with pairwise distinct ids whose values
  sum to less than \<open>2^53\<close>, and every direction, the move returns a result; the values
  of the returned tiles sum to the same total as before the move; the score increase is
  twice the total value of the tiles that were merged away (the input tiles whose id is
  absent from the result); the score increase is at most the sum of the values; and the
  equation of the claim (sum after = sum before + score increase) holds exactly when the
  score increase is 0.
\<close>

theorem move_conserves_sum:
  assumes "well_formed ts" and "distinct (map tile_id ts)"
    and "sum_list (map tile_value ts) < 2 ^ 53"
  shows "\<exists>res. move d ts = Inr res
     \<and> sum_list (map tile_value (updatedTiles res)) = sum_list (map tile_value ts)
     \<and> scoreIncrease res = 2 * sum_list (map tile_value
            (filter (\<lambda>t. tile_id t \<notin> tile_id ` set (updatedTiles res)) ts))
     \<and> scoreIncrease res \<le> sum_list (map tile_value ts)
     \<and> (sum_list (map tile_value (updatedTiles res))
            = sum_list (map tile_value ts) + scoreIncrease res \<longleftrightarrow> scoreIncrease res = 0)"
proof -
  have reg: "regular ts" using assms(1,2) by (rule regularI)
  from move_result [OF reg, of d] obtain res where res: "move d ts = Inr res" by blast
  have eq: "sum_list (map tile_value (updatedTiles res)) = sum_list (map tile_value ts)"
    by (rule move_sum [OF reg res])
  have "sum_list (map tile_value (updatedTiles res))
            = sum_list (map tile_value ts) + scoreIncrease res \<longleftrightarrow> scoreIncrease res = 0"
    unfolding eq by simp
  then show ?thesis
    using res eq move_score [OF reg res] move_score_le [OF reg res] by blast
qed

theorem move_conserves_sum_witness:
  "well_formed boardExample \<and> distinct (map tile_id boardExample)
   \<and> sum_list (map tile_value boardExample) < 2 ^ 53
   \<and> (\<exists>res. move Left boardExample = Inr res
     \<and> sum_list (map tile_value (updatedTiles res)) = sum_list (map tile_value boardExample)
     \<and> scoreIncrease res = 2 * sum_list (map tile_value
            (filter (\<lambda>t. tile_id t \<notin> tile_id ` set (updatedTiles res)) boardExample))
     \<and> scoreIncrease res \<le> sum_list (map tile_value boardExample))
   \<and> sum_list (map tile_value boardExample) = 24"
proof -
  have s: "sum_list (map tile_value boardExample) = 24" by code_simp
  from move_conserves_sum [OF boardExample_wf boardExample_ids boardExample_safe, of Left]
  obtain res where res: "move Left boardExample = Inr res"
    "sum_list (map tile_value (updatedTiles res)) = sum_list (map tile_value boardExample)"
    "scoreIncrease res = 2 * sum_list (map tile_value
            (filter (\<lambda>t. tile_id t \<notin> tile_id ` set (updatedTiles res)) boardExample))"
    "scoreIncrease res \<le> sum_list (map tile_value boardExample)"
    by blast
  show ?thesis
    by (intro conjI exI [of _ res]) (rule boardExample_wf boardExample_ids boardExample_safe res s)+
qed

text \<open>
  C8 (as stated). On a well-formed list with a repeated id a tile disappears without
  any merge: of the tiles of value 16 at \<open>(0, 0)\<close> and of value 2 at \<open>(3, 3)\<close>, both with
  the id 5, \<^verbatim>\<open>moveLeft\<close> returns only the tile of value 2, moved to \<open>(3, 0)\<close>, with score
  increase 0; the tile of value 16 was not merged away, and no returned tile is that
  tile. On another such list \<^verbatim>\<open>moveUp\<close> raises and returns no tiles at all.
\<close>

theorem move_identity_counterexample:
  "well_formed twoWithOneId
   \<and> moveLeft twoWithOneId
       = Inr \<lparr>updatedTiles = [tile 5 2 3 0], scoreIncrease = 0, moved = True\<rparr>
   \<and> well_formed threeWithRepeatedId
   \<and> moveUp threeWithRepeatedId = Inl TypeError"
  by code_simp

text \<open>
  C8 (amended). For every well-formed tile list with pairwise distinct ids whose values
  sum to less than \<open>2^53\<close>, and every direction, the move returns a result in which: the
  ids are distinct and all come from the input (no id is new); every returned tile is the
  input tile with the same id, moved along the line, either unchanged (it kept its value)
  or with its value doubled and marked as merged; the number of tiles that disappeared
  equals the number of returned tiles whose value was doubled; and every input tile whose
  id is absent from the result (a merged-away tile) has a partner of the same value on the
  same line whose id is in the result with twice that value.
\<close>

theorem move_identity:
  assumes "well_formed ts" and "distinct (map tile_id ts)"
    and "sum_list (map tile_value ts) < 2 ^ 53"
  shows "\<exists>res. move d ts = Inr res
     \<and> distinct (map tile_id (updatedTiles res))
     \<and> tile_id ` set (updatedTiles res) \<subseteq> tile_id ` set ts
     \<and> (\<forall>t' \<in> set (updatedTiles res). \<exists>t \<in> set ts. \<exists>p.
            t' = setAlong d p t
          \<or> t' = setAlong d p (t\<lparr>tile_value := tile_value t * 2, merged := Some True\<rparr>))
     \<and> length ts = length (updatedTiles res) + length (filter (doubled ts) (updatedTiles res))
     \<and> (\<forall>t \<in> set ts. tile_id t \<notin> tile_id ` set (updatedTiles res) \<longrightarrow>
          (\<exists>t' \<in> set (updatedTiles res). \<exists>s \<in> set ts.
             tile_id s = tile_id t' \<and> lineOf d s = lineOf d t \<and> tile_value s = tile_value t
             \<and> tile_value t' = 2 * tile_value t))"
proof -
  have reg: "regular ts" using assms(1,2) by (rule regularI)
  from move_result [OF reg, of d] obtain res where res: "move d ts = Inr res" by blast
  have wf': "regular (updatedTiles res)" by (rule move_regular [OF reg res])
  have 1: "distinct (map tile_id (updatedTiles res))"
    using wf' by (simp add: regular_def)
  have 2: "tile_id ` set (updatedTiles res) \<subseteq> tile_id ` set ts"
    unfolding move_set(2) [OF reg res] by (rule finalTiles_ids_subset)
  have 3: "\<forall>t' \<in> set (updatedTiles res). \<exists>t \<in> set ts. \<exists>p.
            t' = setAlong d p t
          \<or> t' = setAlong d p (t\<lparr>tile_value := tile_value t * 2, merged := Some True\<rparr>)"
    using move_elems [OF reg res] by blast
  have 4: "length ts = length (updatedTiles res) + length (filter (doubled ts) (updatedTiles res))"
    by (rule move_count [OF reg res])
  have 5: "\<forall>t \<in> set ts. tile_id t \<notin> tile_id ` set (updatedTiles res) \<longrightarrow>
          (\<exists>t' \<in> set (updatedTiles res). \<exists>s \<in> set ts.
             tile_id s = tile_id t' \<and> lineOf d s = lineOf d t \<and> tile_value s = tile_value t
             \<and> tile_value t' = 2 * tile_value t)"
    using move_partner [OF reg res] by blast
  show ?thesis
    using res 1 2 3 4 5 by blast
qed

theorem move_identity_witness:
  "well_formed boardExample \<and> distinct (map tile_id boardExample)
   \<and> sum_list (map tile_value boardExample) < 2 ^ 53
   \<and> (\<exists>res. move Left boardExample = Inr res
        \<and> map tile_id (updatedTiles res) = [1, 3, 4, 5]
        \<and> distinct (map tile_id (updatedTiles res))
        \<and> length boardExample
            = length (updatedTiles res) + length (filter (doubled boardExample) (updatedTiles res)))"
proof -
  from move_identity [OF boardExample_wf boardExample_ids boardExample_safe, of Left] obtain res where
    res: "move Left boardExample = Inr res" "distinct (map tile_id (updatedTiles res))"
      "length boardExample
         = length (updatedTiles res) + length (filter (doubled boardExample) (updatedTiles res))"
    by blast
  have ids: "map tile_id (updatedTiles res) = [1, 3, 4, 5]"
    using res(1) unfolding boardExample_left by (auto simp: tile_def)
  show ?thesis
    by (intro conjI exI [of _ res])
      (rule boardExample_wf boardExample_ids boardExample_safe res ids)+
qed

text \<open>
  C9 (as stated). On a well-formed list of four tiles, two of them with the id 1,
  \<^verbatim>\<open>moveLeft\<close> returns three tiles, two of which lie on the cell \<open>(1, 1)\<close>.
\<close>

theorem positions_preserved_counterexample:
  "well_formed fourWithRepeatedId
   \<and> moveLeft fourWithRepeatedId
       = Inr \<lparr>updatedTiles = [tile 1 2 1 1, tile 3 4 1 1, tile 9 8 2 0],
              scoreIncrease = 0, moved = True\<rparr>
   \<and> \<not> distinct (map (\<lambda>t. (row t, col t))
          [tile 1 2 1 1, tile 3 4 1 1, tile 9 8 2 0 :: (int, unit) TileData])"
  by code_simp

text \<open>
  C9 (amended). Starting from a well-formed tile list: when the ids are pairwise distinct
  and the values sum to less than \<open>2^53\<close>, every move returns a result with at most one
  tile per position, in which every tile has the row (for left and right) or the column
  (for up and down) of the input tile with the same id; and, whatever the ids, whenever
  \<^verbatim>\<open>addRandomTile\<close> returns a list, that list has at most one tile per position (with a
  random number in \<open>[0, 1)\<close> it returns a list or \<^verbatim>\<open>null\<close>).
\<close>

theorem positions_preserved:
  assumes "well_formed ts"
  shows "(distinct (map tile_id ts) \<and> sum_list (map tile_value ts) < 2 ^ 53 \<longrightarrow>
       (\<exists>res. move d ts = Inr res
       \<and> distinct (map (\<lambda>t. (row t, col t)) (updatedTiles res))
       \<and> (\<forall>t' \<in> set (updatedTiles res). \<exists>t \<in> set ts. tile_id t = tile_id t'
             \<and> (d \<in> {Left, Right} \<longrightarrow> row t' = row t)
             \<and> (d \<in> {Up, Down} \<longrightarrow> col t' = col t))))
     \<and> (\<forall>r n'. addRandomTile n u1 u2 ts = Inr (Some r, n') \<longrightarrow>
           distinct (map (\<lambda>t. (row t, col t)) (tilesWithNew r)))
     \<and> (0 \<le> u1 \<and> u1 < 1 \<longrightarrow> (\<exists>x n'. addRandomTile n u1 u2 ts = Inr (x, n')))"
proof -
  have mv: "\<exists>res. move d ts = Inr res
       \<and> distinct (map (\<lambda>t. (row t, col t)) (updatedTiles res))
       \<and> (\<forall>t' \<in> set (updatedTiles res). \<exists>t \<in> set ts. tile_id t = tile_id t'
             \<and> (d \<in> {Left, Right} \<longrightarrow> row t' = row t)
             \<and> (d \<in> {Up, Down} \<longrightarrow> col t' = col t))"
    if ids: "distinct (map tile_id ts)"
  proof -
    have reg: "regular ts" using assms ids by (rule regularI)
    from move_result [OF reg, of d] obtain res where res: "move d ts = Inr res" by blast
    have wf': "regular (updatedTiles res)" by (rule move_regular [OF reg res])
    have 1: "distinct (map (\<lambda>t. (row t, col t)) (updatedTiles res))"
      using wf' by (simp add: regular_def well_formed_def)
    have 2: "\<exists>t \<in> set ts. tile_id t = tile_id t'
               \<and> (d \<in> {Left, Right} \<longrightarrow> row t' = row t)
               \<and> (d \<in> {Up, Down} \<longrightarrow> col t' = col t)" if "t' \<in> set (updatedTiles res)" for t'
    proof -
      from move_elems [OF reg res that] obtain t p where
        t: "t \<in> set ts" "t' = setAlong d p t
              \<or> t' = setAlong d p (t\<lparr>tile_value := tile_value t * 2, merged := Some True\<rparr>)"
        by blast
      have "tile_id t = tile_id t' \<and> (d \<in> {Left, Right} \<longrightarrow> row t' = row t)
               \<and> (d \<in> {Up, Down} \<longrightarrow> col t' = col t)"
        using t(2) by (cases d) auto
      then show ?thesis using t(1) by blast
    qed
    show ?thesis using res 1 2 by blast
  qed
  have 3: "\<forall>r n'. addRandomTile n u1 u2 ts = Inr (Some r, n') \<longrightarrow>
           distinct (map (\<lambda>t. (row t, col t)) (tilesWithNew r))"
    using addRandomTile_positions [OF assms] by blast
  have 4: "0 \<le> u1 \<and> u1 < 1 \<longrightarrow> (\<exists>x n'. addRandomTile n u1 u2 ts = Inr (x, n'))"
    using addRandomTile_returns [of u1 n u2 ts] by blast
  show ?thesis
    using mv 3 4 by blast
qed

theorem positions_preserved_witness:
  "well_formed boardExample \<and> distinct (map tile_id boardExample)
   \<and> sum_list (map tile_value boardExample) < 2 ^ 53
   \<and> (0::real) \<le> 1 / 4 \<and> (1::real) / 4 < 1
   \<and> (\<exists>res. move Down boardExample = Inr res
        \<and> map (\<lambda>t. (tile_id t, row t, col t)) (updatedTiles res)
            = [(1, 3, 0), (2, 3, 1), (3, 3, 3), (5, 3, 2)]
        \<and> distinct (map (\<lambda>t. (row t, col t)) (updatedTiles res)))
   \<and> (\<exists>r. addRandomTile 100 (1 / 4) 0 boardExample = Inr (Some r, 101)
        \<and> distinct (map (\<lambda>t. (row t, col t)) (tilesWithNew r)))"
proof -
  note inst = positions_preserved [OF boardExample_wf, of Down 100 "1 / 4" 0]
  from inst boardExample_ids boardExample_safe obtain res where
    res: "move Down boardExample = Inr res" "distinct (map (\<lambda>t. (row t, col t)) (updatedTiles res))"
    by blast
  have ids: "map (\<lambda>t. (tile_id t, row t, col t)) (updatedTiles res)
            = [(1, 3, 0), (2, 3, 1), (3, 3, 3), (5, 3, 2)]"
    using res(1) unfolding boardExample_down by (auto simp: tile_def)
  define r :: "unit AddResult"
    where "r = \<lparr>tilesWithNew = boardExample @ [tile 100 2 0 2], newTile = tile 100 2 0 2\<rparr>"
  have r: "addRandomTile 100 (1 / 4) 0 boardExample = Inr (Some r, 101)"
    unfolding r_def by code_simp
  with inst have dr: "distinct (map (\<lambda>t. (row t, col t)) (tilesWithNew r))" by blast
  have u: "(0::real) \<le> 1 / 4" "(1::real) / 4 < 1" by simp_all
  show ?thesis
    by (intro conjI exI [of _ res] exI [of _ r])
      (rule boardExample_wf boardExample_ids boardExample_safe u res ids r dr)+
qed
text \<open>
  C5 (as stated). The row \<open>[2, 2, 2, 2]\<close> moved left is \<open>[4, 4, 0, 0]\<close>; moved left again it
  is \<open>[8, 0, 0, 0]\<close>, and the second move reports \<open>moved = true\<close>. And on a well-formed
  list with a repeated id already the first move can raise.
\<close>

theorem second_move_counterexample:
  "well_formed rowOfTwos
   \<and> move Left rowOfTwos
       = Inr \<lparr>updatedTiles = [(tile 1 4 0 0)\<lparr>merged := Some True\<rparr>, (tile 3 4 0 1)\<lparr>merged := Some True\<rparr>],
              scoreIncrease = 8, moved = True\<rparr>
   \<and> move Left [(tile 1 4 0 0)\<lparr>merged := Some True\<rparr>, (tile 3 4 0 1)\<lparr>merged := Some True\<rparr>]
       = Inr \<lparr>updatedTiles = [(tile 1 8 0 0)\<lparr>merged := Some True\<rparr> :: (int, unit) TileData],
              scoreIncrease = 8, moved = True\<rparr>
   \<and> well_formed threeWithRepeatedId
   \<and> move Up threeWithRepeatedId = Inl TypeError"
  by code_simp

text \<open>
  C5 (amended). For every well-formed tile list with pairwise distinct ids whose values
  sum to less than \<open>2^53\<close>, and every direction, the move and a second move in the same
  direction on its result both return. The second move reports \<open>moved = false\<close>, leaves
  the tile list unchanged and adds no score exactly when the result of the first move has
  no two tiles of equal value in neighbouring cells of a line along the axis; in
  particular whenever the first move merged nothing (its score increase is 0). Otherwise
  the second move merges again: it reports \<open>moved = true\<close>, its score increase is positive
  and it returns fewer tiles than it was given.
\<close>

theorem second_move:
  assumes "well_formed ts" and "distinct (map tile_id ts)"
    and "sum_list (map tile_value ts) < 2 ^ 53"
  shows "\<exists>res1 res2. move d ts = Inr res1 \<and> move d (updatedTiles res1) = Inr res2
     \<and> (moved res2 \<longleftrightarrow> adjacentEqual d (updatedTiles res1))
     \<and> (\<not> moved res2 \<longrightarrow> updatedTiles res2 = updatedTiles res1 \<and> scoreIncrease res2 = 0)
     \<and> (moved res2 \<longrightarrow> 0 < scoreIncrease res2
            \<and> length (updatedTiles res2) < length (updatedTiles res1))
     \<and> (scoreIncrease res1 = 0 \<longrightarrow> \<not> moved res2)"
proof -
  have reg: "regular ts" using assms(1,2) by (rule regularI)
  from move_result [OF reg, of d] obtain res1 where res1: "move d ts = Inr res1" by blast
  have wf1: "regular (updatedTiles res1)" by (rule move_regular [OF reg res1])
  define F where "F r = lineResult d (lineTiles d ts r)" for r
  have lines: "lineTiles d (updatedTiles res1) r = F r" if "r < 4" for r
    unfolding F_def by (rule lineTiles_after_move [OF reg res1 that])
  from move_result [OF wf1, of d] obtain res2 where
    res2: "move d (updatedTiles res1) = Inr res2"
      "scoreIncrease res2 = (\<Sum>r\<leftarrow>[0..<4]. gain (lineTiles d (updatedTiles res1) r))"
      "moved res2 \<longleftrightarrow> (\<exists>r<4. lineResult d (lineTiles d (updatedTiles res1) r)
                                \<noteq> lineTiles d (updatedTiles res1) r)"
      "\<not> moved res2 \<longrightarrow> updatedTiles res2 = updatedTiles res1"
    by blast
  have m: "moved res2 \<longleftrightarrow> (\<exists>r<4. adjV (map tile_value (F r)))"
  proof -
    have "moved res2 \<longleftrightarrow> (\<exists>r<4. lineResult d (F r) \<noteq> F r)"
      unfolding res2(3) using lines by auto
    also have "\<dots> \<longleftrightarrow> (\<exists>r<4. adjV (map tile_value (F r)))"
      unfolding F_def using lineResult_compact [of d] by blast
    finally show ?thesis .
  qed
  have 1: "moved res2 \<longleftrightarrow> adjacentEqual d (updatedTiles res1)"
    unfolding m move_adjacentEqual [OF reg res1] F_def ..
  have sc2: "scoreIncrease res2 = gain (F 0) + gain (F 1) + gain (F 2) + gain (F 3)"
    unfolding res2(2) using lines by (simp add: upt4)
  have 2: "scoreIncrease res2 = 0" if "\<not> moved res2"
  proof -
    have "gain (F r) = 0" if "r < 4" for r
      using \<open>\<not> moved res2\<close> that m gain_zero [of "F r"] by blast
    then show ?thesis unfolding sc2 by simp
  qed
  have 3: "\<not> moved res2" if "scoreIncrease res1 = 0"
    unfolding 1 by (rule no_merge_no_neighbours [OF reg res1 that])
  have pos: "\<forall>x \<in> set (F r). 0 < tile_value x" if "r < 4" for r
  proof
    fix x assume "x \<in> set (F r)"
    then have "x \<in> set (updatedTiles res1)"
      unfolding lines [OF that, symmetric] by (simp add: lineTiles_set)
    then have "powerOfTwo (tile_value x)" using wf1 by (simp add: regular_def well_formed_def)
    then show "0 < tile_value x" by (rule powerOfTwo_pos)
  qed
  have 4: "0 < scoreIncrease res2" if "moved res2"
  proof -
    from that m obtain r where r: "r < 4" "adjV (map tile_value (F r))" by blast
    have "0 < gain (F r)" by (rule gain_pos [OF pos [OF r(1)] r(2)])
    moreover have "0 \<le> gain (F 0)" "0 \<le> gain (F 1)" "0 \<le> gain (F 2)" "0 \<le> gain (F 3)"
      by (rule gain_nonneg, rule pos, simp)+
    ultimately show ?thesis
      unfolding sc2 using less4_cases [OF r(1)] by auto
  qed
  have 5: "length (updatedTiles res2) < length (updatedTiles res1)" if "moved res2"
  proof -
    define gone where "gone = filter (\<lambda>t. tile_id t \<notin> tile_id ` set (updatedTiles res2))
        (updatedTiles res1)"
    have "0 < 2 * sum_list (map tile_value gone)"
      using 4 [OF that] move_score [OF wf1 res2(1)] by (simp add: gone_def)
    then have "gone \<noteq> []" by auto
    then obtain t where "t \<in> set gone" by (cases gone) auto
    then have t: "t \<in> set (updatedTiles res1)"
        "tile_id t \<notin> tile_id ` set (updatedTiles res2)"
      by (simp_all add: gone_def)
    from move_partner [OF wf1 res2(1) t] obtain t' s where
      ts: "t' \<in> set (updatedTiles res2)" "s \<in> set (updatedTiles res1)"
        "tile_id s = tile_id t'" "tile_value s = tile_value t" "tile_value t' = 2 * tile_value t"
      by blast
    then have "doubled (updatedTiles res1) t'"
      unfolding doubled_def by (intro bexI [of _ s]) simp_all
    with ts(1) have "filter (doubled (updatedTiles res1)) (updatedTiles res2) \<noteq> []"
      by (auto simp: filter_empty_conv)
    then have "0 < length (filter (doubled (updatedTiles res1)) (updatedTiles res2))" by simp
    then show ?thesis using move_count [OF wf1 res2(1)] by simp
  qed
  show ?thesis
    using res1 res2(1,4) 1 2 3 4 5 by blast
qed

theorem second_move_witness:
  "well_formed boardExample \<and> distinct (map tile_id boardExample)
   \<and> sum_list (map tile_value boardExample) < 2 ^ 53
   \<and> (\<exists>res1 res2. move Left boardExample = Inr res1 \<and> move Left (updatedTiles res1) = Inr res2
        \<and> adjacentEqual Left (updatedTiles res1) \<and> moved res2 \<and> 0 < scoreIncrease res2
        \<and> length (updatedTiles res2) < length (updatedTiles res1))
   \<and> (\<exists>res1 res2. move Down boardExample = Inr res1 \<and> move Down (updatedTiles res1) = Inr res2
        \<and> \<not> adjacentEqual Down (updatedTiles res1) \<and> \<not> moved res2
        \<and> updatedTiles res2 = updatedTiles res1)"
proof -
  from second_move [OF boardExample_wf boardExample_ids boardExample_safe, of Left] obtain l1 l2 where
    l: "move Left boardExample = Inr l1" "move Left (updatedTiles l1) = Inr l2"
      "moved l2 \<longleftrightarrow> adjacentEqual Left (updatedTiles l1)"
      "moved l2 \<longrightarrow> 0 < scoreIncrease l2 \<and> length (updatedTiles l2) < length (updatedTiles l1)"
    by blast
  have "adjacentEqual Left (updatedTiles l1)"
    using l(1) unfolding boardExample_left by (auto simp: adjacentEqual_def tile_def)
  then have la: "adjacentEqual Left (updatedTiles l1) \<and> moved l2 \<and> 0 < scoreIncrease l2
        \<and> length (updatedTiles l2) < length (updatedTiles l1)" using l(3,4) by simp
  from second_move [OF boardExample_wf boardExample_ids boardExample_safe, of Down] obtain d1 d2 where
    d: "move Down boardExample = Inr d1" "move Down (updatedTiles d1) = Inr d2"
      "moved d2 \<longleftrightarrow> adjacentEqual Down (updatedTiles d1)"
      "\<not> moved d2 \<longrightarrow> updatedTiles d2 = updatedTiles d1 \<and> scoreIncrease d2 = 0"
    by blast
  have "\<not> adjacentEqual Down (updatedTiles d1)"
    using d(1) unfolding boardExample_down by (auto simp: adjacentEqual_def tile_def)
  then have da: "\<not> adjacentEqual Down (updatedTiles d1) \<and> \<not> moved d2
        \<and> updatedTiles d2 = updatedTiles d1" using d(3,4) by simp
  show ?thesis
    using boardExample_wf boardExample_ids boardExample_safe l(1,2) la d(1,2) da by blast
qed

text \<open>
  C4 (as stated). The row \<open>[2, 0, 2, 4]\<close> moved left is \<open>[4, 4, 0, 0]\<close>: the merged tile of
  value 4 lies next to the tile that had value 4 before. And on a well-formed list with a
  repeated id a move can raise instead of returning a board.
\<close>

theorem neighbours_after_move_counterexample:
  "well_formed rowTwoTwoFour
   \<and> move Left rowTwoTwoFour
       = Inr \<lparr>updatedTiles = [(tile 1 4 0 0)\<lparr>merged := Some True\<rparr>, tile 3 4 0 1],
              scoreIncrease = 4, moved = True\<rparr>
   \<and> adjacentEqual Left [(tile 1 4 0 0)\<lparr>merged := Some True\<rparr>, tile 3 4 0 1 :: (int, unit) TileData]
   \<and> well_formed threeWithRepeatedId
   \<and> moveUp threeWithRepeatedId = Inl TypeError"
  by code_simp

text \<open>
  C4 (amended). For every well-formed tile list with pairwise distinct ids whose values
  sum to less than \<open>2^53\<close>, and every direction, the move returns a result in which, of
  any two tiles of equal value in neighbouring cells of a line along the axis, at least
  one was produced by a merge of this move (it carries twice the value of the input tile
  with its id); in particular a move that merges nothing leaves no such pair.
\<close>

theorem neighbours_after_move:
  assumes "well_formed ts" and "distinct (map tile_id ts)"
    and "sum_list (map tile_value ts) < 2 ^ 53"
  shows "\<exists>res. move d ts = Inr res
     \<and> (\<forall>a \<in> set (updatedTiles res). \<forall>b \<in> set (updatedTiles res).
          lineOf d a = lineOf d b \<and> along d b = along d a + 1 \<and> tile_value a = tile_value b
          \<longrightarrow> doubled ts a \<or> doubled ts b)
     \<and> (scoreIncrease res = 0 \<longrightarrow> \<not> adjacentEqual d (updatedTiles res))"
proof -
  have reg: "regular ts" using assms(1,2) by (rule regularI)
  from move_result [OF reg, of d] obtain res where res: "move d ts = Inr res" by blast
  have 1: "doubled ts a \<or> doubled ts b"
    if ab: "a \<in> set (updatedTiles res)" "b \<in> set (updatedTiles res)"
      "lineOf d a = lineOf d b \<and> along d b = along d a + 1 \<and> tile_value a = tile_value b"
    for a b
  proof -
    from ab(1) obtain r where r: "r < 4" "a \<in> set (lineResult d (lineTiles d ts r))"
      unfolding move_set(2) [OF reg res] finalTiles_set by blast
    from ab(2) obtain r' where r': "r' < 4" "b \<in> set (lineResult d (lineTiles d ts r'))"
      unfolding move_set(2) [OF reg res] finalTiles_set by blast
    have "int r = int r'"
      using lineResult_line [OF r(2)] lineResult_line [OF r'(2)] ab(3) by simp
    then have b: "b \<in> set (lineResult d (lineTiles d ts r))" using r'(2) by simp
    have "doubled (lineTiles d ts r) a \<or> doubled (lineTiles d ts r) b"
      using lineResult_neighbours [OF r(2) b] ab(3) by blast
    moreover have "set (lineTiles d ts r) \<subseteq> set ts" by (auto simp: lineTiles_set)
    ultimately show ?thesis using doubled_mono by blast
  qed
  have 2: "scoreIncrease res = 0 \<longrightarrow> \<not> adjacentEqual d (updatedTiles res)"
    using no_merge_no_neighbours [OF reg res] by blast
  show ?thesis
    using res 1 2 by blast
qed

theorem neighbours_after_move_witness:
  "well_formed rowTwoTwoFour \<and> distinct (map tile_id rowTwoTwoFour)
   \<and> sum_list (map tile_value rowTwoTwoFour) < 2 ^ 53
   \<and> (\<exists>res. move Left rowTwoTwoFour = Inr res
        \<and> updatedTiles res = [(tile 1 4 0 0)\<lparr>merged := Some True\<rparr>, tile 3 4 0 1]
        \<and> doubled rowTwoTwoFour ((tile 1 4 0 0)\<lparr>merged := Some True\<rparr>))
   \<and> (\<exists>res. move Down rowTwoTwoFour = Inr res \<and> scoreIncrease res = 0
        \<and> \<not> adjacentEqual Down (updatedTiles res))"
proof -
  have wf: "well_formed rowTwoTwoFour" by code_simp
  have ids: "distinct (map tile_id rowTwoTwoFour)" by code_simp
  have safe: "sum_list (map tile_value rowTwoTwoFour) < 2 ^ 53" by code_simp
  have ev: "move Left rowTwoTwoFour
       = Inr \<lparr>updatedTiles = [(tile 1 4 0 0)\<lparr>merged := Some True\<rparr>, tile 3 4 0 1],
              scoreIncrease = 4, moved = True\<rparr>"
    by code_simp
  from neighbours_after_move [OF wf ids safe, of Left] obtain res where
    res: "move Left rowTwoTwoFour = Inr res"
      "\<forall>a \<in> set (updatedTiles res). \<forall>b \<in> set (updatedTiles res).
          lineOf Left a = lineOf Left b \<and> along Left b = along Left a + 1 \<and> tile_value a = tile_value b
          \<longrightarrow> doubled rowTwoTwoFour a \<or> doubled rowTwoTwoFour b"
    by blast
  have out: "updatedTiles res = [(tile 1 4 0 0)\<lparr>merged := Some True\<rparr>, tile 3 4 0 1]"
    using res(1) unfolding ev by auto
  have nd: "\<not> doubled rowTwoTwoFour (tile 3 4 0 1)"
    by (simp add: doubled_def rowTwoTwoFour_def tile_def)
  have "doubled rowTwoTwoFour ((tile 1 4 0 0)\<lparr>merged := Some True\<rparr>)
      \<or> doubled rowTwoTwoFour (tile 3 4 0 1)"
    using res(2) unfolding out by (simp add: tile_def)
  then have dbl: "doubled rowTwoTwoFour ((tile 1 4 0 0)\<lparr>merged := Some True\<rparr>)"
    using nd by simp
  have ev': "move Down rowTwoTwoFour
       = Inr \<lparr>updatedTiles = [tile 1 2 3 0, tile 2 2 3 2, tile 3 4 3 3],
              scoreIncrease = 0, moved = True\<rparr>"
    by code_simp
  from neighbours_after_move [OF wf ids safe, of Down] obtain res' where
    res': "move Down rowTwoTwoFour = Inr res'"
      "scoreIncrease res' = 0 \<longrightarrow> \<not> adjacentEqual Down (updatedTiles res')"
    by blast
  have sc: "scoreIncrease res' = 0"
    using res'(1) unfolding ev' by auto
  then have na: "\<not> adjacentEqual Down (updatedTiles res')"
    using res'(2) by simp
  show ?thesis
    using wf ids safe res(1) out dbl res'(1) sc na by blast
qed

section \<open>The terminal state\<close>

lemma boardTerminal_wf: "well_formed boardTerminal"
  by code_simp

lemma boardTerminal_check: "checkAvailableMoves boardTerminal = Inr False"
  by code_simp

lemma boardExample_check: "checkAvailableMoves boardExample = Inr True"
  by code_simp

lemma boardTerminal_ids: "distinct (map tile_id boardTerminal)"
  by code_simp

lemma boardTerminal_safe: "sum_list (map tile_value boardTerminal) < 2 ^ 53"
  by code_simp

text \<open>
  C2 (as stated). On a full well-formed board in which the tiles at \<open>(0, 1)\<close> and
  \<open>(1, 0)\<close> have the same id, \<^verbatim>\<open>checkAvailableMoves\<close> returns nothing: the simulated
  \<^verbatim>\<open>moveLeft\<close> raises.
\<close>

theorem checkAvailableMoves_repeated_id_counterexample:
  "well_formed boardRepeatedId \<and> length boardRepeatedId = 16
   \<and> moveLeft boardRepeatedId = Inl TypeError
   \<and> checkAvailableMoves boardRepeatedId = Inl TypeError
   \<and> gameOver boardRepeatedId = Inl TypeError"
  by code_simp

text \<open>
  C2 (amended). For every well-formed tile list with pairwise distinct ids whose values
  sum to less than \<open>2^53\<close>, \<^verbatim>\<open>checkAvailableMoves\<close> returns a boolean \<open>b\<close>: it is true when
  fewer than 16 tiles are listed, which is exactly when the board has an empty cell; with
  16 tiles it is false if and only if \<^verbatim>\<open>moveLeft\<close>, \<^verbatim>\<open>moveRight\<close>, \<^verbatim>\<open>moveUp\<close> and
  \<^verbatim>\<open>moveDown\<close> all report \<open>moved = false\<close>; hence the terminal flag (\<open>gameOver\<close>, its
  negation) is true if and only if the board is full and, for every direction, the move
  returns the tile list unchanged.
\<close>

theorem checkAvailableMoves_terminal:
  assumes "well_formed ts" and "distinct (map tile_id ts)"
    and "sum_list (map tile_value ts) < 2 ^ 53"
  shows "\<exists>b. checkAvailableMoves ts = Inr b \<and> gameOver ts = Inr (\<not> b)
     \<and> (length ts < 16 \<longrightarrow> b)
     \<and> (length ts < 16 \<longleftrightarrow> \<not> boardFull ts)
     \<and> (\<not> length ts < 16 \<longrightarrow>
          (\<not> b \<longleftrightarrow> (\<exists>rl rr ru rd. moveLeft ts = Inr rl \<and> moveRight ts = Inr rr
                    \<and> moveUp ts = Inr ru \<and> moveDown ts = Inr rd
                    \<and> \<not> moved rl \<and> \<not> moved rr \<and> \<not> moved ru \<and> \<not> moved rd)))
     \<and> (\<not> b \<longleftrightarrow> boardFull ts \<and> (\<forall>d. \<exists>res. move d ts = Inr res \<and> updatedTiles res = ts))"
proof -
  have reg: "regular ts" using assms(1,2) by (rule regularI)
  from move_result [OF reg, of Left] obtain rl where rl: "move Left ts = Inr rl" by blast
  from move_result [OF reg, of Right] obtain rr where rr: "move Right ts = Inr rr" by blast
  from move_result [OF reg, of Up] obtain ru where ru: "move Up ts = Inr ru" by blast
  from move_result [OF reg, of Down] obtain rd where rd: "move Down ts = Inr rd" by blast
  define still where "still \<longleftrightarrow> \<not> moved rl \<and> \<not> moved rr \<and> \<not> moved ru \<and> \<not> moved rd"
  define b where "b \<longleftrightarrow> length ts < 16 \<or> \<not> still"
  have chk: "checkAvailableMoves ts = Inr b"
    unfolding checkAvailableMoves_def moveLeft_def moveRight_def moveUp_def moveDown_def
      rl rr ru rd b_def still_def
    by (simp add: GRID_SIZE_def)
  have go: "gameOver ts = Inr (\<not> b)"
    unfolding gameOver_def chk by simp
  have len: "length ts \<le> 16" and full: "boardFull ts \<longleftrightarrow> length ts = 16"
    using full_iff_length [OF assms(1)] by blast+
  have 1: "length ts < 16 \<longrightarrow> b" by (simp add: b_def)
  have 2: "length ts < 16 \<longleftrightarrow> \<not> boardFull ts" using len full by auto
  have four: "(\<exists>rl' rr' ru' rd'. moveLeft ts = Inr rl' \<and> moveRight ts = Inr rr'
                    \<and> moveUp ts = Inr ru' \<and> moveDown ts = Inr rd'
                    \<and> \<not> moved rl' \<and> \<not> moved rr' \<and> \<not> moved ru' \<and> \<not> moved rd') \<longleftrightarrow> still"
    unfolding moveLeft_def moveRight_def moveUp_def moveDown_def rl rr ru rd still_def by auto
  have 3: "\<not> length ts < 16 \<longrightarrow>
          (\<not> b \<longleftrightarrow> (\<exists>rl rr ru rd. moveLeft ts = Inr rl \<and> moveRight ts = Inr rr
                    \<and> moveUp ts = Inr ru \<and> moveDown ts = Inr rd
                    \<and> \<not> moved rl \<and> \<not> moved rr \<and> \<not> moved ru \<and> \<not> moved rd))"
    unfolding four by (simp add: b_def)
  have unchanged: "(\<forall>d. \<exists>res. move d ts = Inr res \<and> updatedTiles res = ts) \<longleftrightarrow> still"
  proof
    assume a: "\<forall>d. \<exists>res. move d ts = Inr res \<and> updatedTiles res = ts"
    have "\<not> moved res" if "move d ts = Inr res" for d res
    proof -
      from a that have "updatedTiles res = ts" by (metis sum.inject(2))
      then show ?thesis using moved_iff_changed [OF reg that] by simp
    qed
    then show still unfolding still_def using rl rr ru rd by blast
  next
    assume s: still
    show "\<forall>d. \<exists>res. move d ts = Inr res \<and> updatedTiles res = ts"
    proof
      fix d
      show "\<exists>res. move d ts = Inr res \<and> updatedTiles res = ts"
        using s rl rr ru rd moved_iff_changed [OF reg rl] moved_iff_changed [OF reg rr]
          moved_iff_changed [OF reg ru] moved_iff_changed [OF reg rd]
        unfolding still_def by (cases d) auto
    qed
  qed
  have 4: "\<not> b \<longleftrightarrow> boardFull ts \<and> (\<forall>d. \<exists>res. move d ts = Inr res \<and> updatedTiles res = ts)"
    unfolding unchanged b_def using 2 by auto
  show ?thesis
    using chk go 1 2 3 4 by blast
qed

theorem checkAvailableMoves_terminal_witness:
  "well_formed boardTerminal \<and> distinct (map tile_id boardTerminal)
   \<and> sum_list (map tile_value boardTerminal) < 2 ^ 53
   \<and> well_formed boardExample \<and> distinct (map tile_id boardExample)
   \<and> sum_list (map tile_value boardExample) < 2 ^ 53
   \<and> checkAvailableMoves boardTerminal = Inr False \<and> gameOver boardTerminal = Inr True
   \<and> boardFull boardTerminal
   \<and> (\<exists>res. move Left boardTerminal = Inr res \<and> updatedTiles res = boardTerminal)
   \<and> checkAvailableMoves boardExample = Inr True \<and> gameOver boardExample = Inr False
   \<and> \<not> boardFull boardExample"
proof -
  from checkAvailableMoves_terminal [OF boardTerminal_wf boardTerminal_ids boardTerminal_safe] obtain b where
    b: "checkAvailableMoves boardTerminal = Inr b" "gameOver boardTerminal = Inr (\<not> b)"
      "\<not> b \<longleftrightarrow> boardFull boardTerminal
         \<and> (\<forall>d. \<exists>res. move d boardTerminal = Inr res \<and> updatedTiles res = boardTerminal)"
    by blast
  have nb: "\<not> b" using b(1) unfolding boardTerminal_check by simp
  then have t1: "gameOver boardTerminal = Inr True" using b(2) by simp
  have t2: "boardFull boardTerminal" using nb b(3) by blast
  have t3: "\<exists>res. move Left boardTerminal = Inr res \<and> updatedTiles res = boardTerminal"
    using nb b(3) by blast
  from checkAvailableMoves_terminal [OF boardExample_wf boardExample_ids boardExample_safe] obtain c where
    c: "checkAvailableMoves boardExample = Inr c" "gameOver boardExample = Inr (\<not> c)"
      "length boardExample < 16 \<longrightarrow> c" "length boardExample < 16 \<longleftrightarrow> \<not> boardFull boardExample"
    by blast
  have l: "length boardExample < 16" by (simp add: boardExample_def)
  then have e1: "gameOver boardExample = Inr False" using c(2,3) by simp
  have e2: "\<not> boardFull boardExample" using l c(4) by simp
  show ?thesis
    using boardTerminal_wf boardTerminal_ids boardTerminal_safe
      boardExample_wf boardExample_ids boardExample_safe boardTerminal_check t1 t2 t3 boardExample_check e1 e2
    by blast
qed

section \<open>The initial state\<close>

text \<open>
  C1. \<^verbatim>\<open>initializeGame\<close> returns the grid it created before the two tiles were added: for
  every state of the id counter and all random numbers (the two cell choices in \<open>[0, 1)\<close>)
  it returns two tiles together with the grid of zeros, and the projection of the two
  tiles onto the grid differs from that grid. With the counter at 1 and all four random
  numbers 0 the tiles are \<open>(id 1, value 2)\<close> at \<open>(0, 0)\<close> and \<open>(id 2, value 2)\<close> at \<open>(0, 1)\<close>.
\<close>

theorem initializeGame_grid_not_projection:
  assumes "0 \<le> u1" "u1 < 1" "0 \<le> u3" "u3 < 1"
  shows "\<exists>res t1 t2 g. initializeGame n u1 u2 u3 u4 = Inr (res, n + 2)
     \<and> init_tiles res = [t1, t2] \<and> init_grid res = createEmptyGrid GRID_SIZE
     \<and> tilesToGrid (init_tiles res) GRID_SIZE = Inr g \<and> g \<noteq> init_grid res"
proof -
  have e0: "cellValue ([] :: (int, 'a) TileData list) (int 0) (int 0) = 0"
    by (simp add: cellValue_def)
  from addRandomTile_empty_cell [OF assms(1,2) _ _ e0, of n u2] obtain r1 n1 where
    a1: "addRandomTile n u1 u2 ([] :: (int, 'a) TileData list) = Inr (Some r1, n1)" by auto
  from addRandomTile_Some [OF a1] obtain t1 where
    t1: "tilesWithNew r1 = [t1]" "n1 = n + 1" "tile_value t1 \<in> {2, 4}"
    by auto
  from addRandomTile_returns [OF assms(3,4), of n1 u4 "[t1]"] obtain x n2 where
    a2: "addRandomTile n1 u3 u4 [t1] = Inr (x, n2)" by blast
  have "x \<noteq> None"
  proof
    assume "x = None"
    then have "\<exists>n'. addRandomTile n1 u3 u4 [t1] = Inr (None, n')" using a2 by blast
    then have all: "\<forall>r<4. \<forall>c<4. cellValue [t1] (int r) (int c) \<noteq> 0"
      unfolding addRandomTile_None_iff .
    have "(0::nat) < 4" "(1::nat) < 4" by simp_all
    with all have "cellValue [t1] (int 0) (int 0) \<noteq> 0" "cellValue [t1] (int 0) (int 1) \<noteq> 0"
      by blast+
    then show False by (auto simp: cellValue_def split: if_splits)
  qed
  then obtain r2 where r2: "x = Some r2" by auto
  from addRandomTile_Some [OF a2 [unfolded r2]] obtain t2 r c where
    t2: "tilesWithNew r2 = [t1] @ [t2]" "n2 = n1 + 1" "tile_value t2 \<in> {2, 4}"
      "row t2 = int r" "col t2 = int c" "r < 4" "c < 4"
    by blast
  define res :: "'a InitResult"
    where "res = \<lparr>init_grid = createEmptyGrid GRID_SIZE, init_tiles = [t1, t2]\<rparr>"
  have init: "initializeGame n u1 u2 u3 u4 = Inr (res, n + 2)"
    using a1 a2 r2 t1 t2(1,2) by (simp add: initializeGame_def res_def)
  from tilesToGrid_cells [of "[t1, t2]" 4] obtain g where
    g: "tilesToGrid [t1, t2] 4 = Inr g" "\<forall>r<4. \<forall>c<4. g ! r ! c = cellValue [t1, t2] (int r) (int c)"
    by blast
  have "g ! r ! c = tile_value t2"
    using g(2) t2(4,5,6,7) cellValue_snoc [of "[t1]" t2] by simp
  then have "g ! r ! c \<noteq> 0" using t2(3) by auto
  moreover have "createEmptyGrid GRID_SIZE ! r ! c = 0"
    using t2(6,7) by (simp add: createEmptyGrid_def GRID_SIZE_def)
  ultimately have ne: "g \<noteq> createEmptyGrid GRID_SIZE" by auto
  show ?thesis
    using init g(1) ne by (auto simp: res_def GRID_SIZE_def)
qed


theorem initializeGame_grid_not_projection_witness:
  "(0::real) \<le> 0 \<and> (0::real) < 1
   \<and> initializeGame 1 0 0 0 0
     = Inr (\<lparr>init_grid = [[0, 0, 0, 0], [0, 0, 0, 0], [0, 0, 0, 0], [0, 0, 0, 0]],
             init_tiles = [tile 1 2 0 0, tile 2 2 0 1 :: (int, unit) TileData]\<rparr>, 3)
   \<and> tilesToGrid [tile 1 2 0 0, tile 2 2 0 1 :: (int, unit) TileData] 4
     = Inr [[2, 2, 0, 0], [0, 0, 0, 0], [0, 0, 0, 0], [0, 0, 0, 0]]
   \<and> (\<exists>res g. initializeGame 1 0 0 0 0 = Inr (res :: unit InitResult, 3)
         \<and> tilesToGrid (init_tiles res) GRID_SIZE = Inr g \<and> g \<noteq> init_grid res)"
proof -
  have u: "(0::real) \<le> 0" "(0::real) < 1" by simp_all
  have ev: "initializeGame 1 0 0 0 0
     = Inr (\<lparr>init_grid = [[0, 0, 0, 0], [0, 0, 0, 0], [0, 0, 0, 0], [0, 0, 0, 0]],
             init_tiles = [tile 1 2 0 0, tile 2 2 0 1 :: (int, unit) TileData]\<rparr>, 3)"
    by code_simp
  have pr: "tilesToGrid [tile 1 2 0 0, tile 2 2 0 1 :: (int, unit) TileData] 4
     = Inr [[2, 2, 0, 0], [0, 0, 0, 0], [0, 0, 0, 0], [0, 0, 0, 0]]"
    by code_simp
  from initializeGame_grid_not_projection [OF u u, of 1 0 0, where ?'a = unit] obtain res g where
    "initializeGame 1 0 0 0 0 = Inr (res :: unit InitResult, 1 + 2)"
    "tilesToGrid (init_tiles res) GRID_SIZE = Inr g" "g \<noteq> init_grid res"
    by blast
  then have "\<exists>res g. initializeGame 1 0 0 0 0 = Inr (res :: unit InitResult, 3)
         \<and> tilesToGrid (init_tiles res) GRID_SIZE = Inr g \<and> g \<noteq> init_grid res"
    by auto
  then show ?thesis using u ev pr by blast
qed


end
